theory Spec2Isabelle
  imports Complex_Main "HOL-Library.Multiset"
begin

section \<open>Data model of the training-item tree\<close>

text \<open>
  The embedding follows the class \<^verbatim>\<open>TrainingItem\<close> (the file
  \<^verbatim>\<open>core/models/team-comment.model.ts\<close> carries it after the roadmap classes;
  the imports name it \<^verbatim>\<open>training-item.model\<close>), the class \<^verbatim>\<open>TrainingService\<close> of
  \<^verbatim>\<open>core/services/training.service.ts\<close>, \<^verbatim>\<open>SupabaseService.update\<close> of
  \<^verbatim>\<open>core/services/supabase.service.ts\<close> and the component of
  \<^verbatim>\<open>features/learning-tree/learning-tree.ts\<close>.

  A TypeScript \<^verbatim>\<open>number\<close> is idealised as a real number: rounding, NaN and the
  infinities of IEEE doubles are not modelled. A \<^verbatim>\<open>Date\<close> is a point on a
  discrete clock, and every \<^verbatim>\<open>new Date()\<close> of one call reads the same instant
  \<open>now\<close>.
\<close>

type_synonym number = real
type_synonym date = nat

datatype TrainingStatus = NOT_STARTED | IN_PROGRESS | COMPLETED | PAUSED | ARCHIVED

datatype SkillType = HARD_SKILL | SOFT_SKILL

text \<open>
  \<^verbatim>\<open>Partial<ITrainingItem>\<close>: every field may be missing. It is the shape of a row
  of the table \<^verbatim>\<open>training_items\<close>, of the argument of the constructor and of an
  update payload. \<open>None\<close> stands for \<^verbatim>\<open>undefined\<close> (and for a null column).
  The fields title, description, category, difficulty_level, source, source_url, tags
  and created_at are plain data that no function below reads; they are left out.
\<close>

record partial_item =
  p_id :: "string option"
  p_user_id :: "string option"
  p_parent_id :: "string option"
  p_skill_type :: "SkillType option"
  p_estimated_duration_minutes :: "number option"
  p_status :: "TrainingStatus option"
  p_progress_percentage :: "number option"
  p_completed_at :: "date option"
  p_last_practiced_at :: "date option"
  p_updated_at :: "date option"
  p_level :: "number option"
  p_order_index :: "number option"

text \<open>The fields of a constructed \<^verbatim>\<open>TrainingItem\<close> object, without its children array.\<close>

record item =
  item_id :: string
  user_id :: string
  parent_id :: "string option"
  skill_type :: SkillType
  estimated_duration_minutes :: number
  status :: TrainingStatus
  progress_percentage :: number
  completed_at :: "date option"
  last_practiced_at :: "date option"
  updated_at :: date
  level :: number
  order_index :: number

text \<open>
  JavaScript's \<^verbatim>\<open>x || d\<close>: the default \<open>d\<close> replaces every falsy \<open>x\<close>, that is
  \<^verbatim>\<open>undefined\<close>, the number 0 and the empty string. Enum values and dates are
  never falsy.
\<close>

definition or_num :: "number option \<Rightarrow> number \<Rightarrow> number" where
  "or_num x d = (case x of None \<Rightarrow> d | Some v \<Rightarrow> if v = 0 then d else v)"

definition or_str :: "string option \<Rightarrow> string \<Rightarrow> string" where
  "or_str x d = (case x of None \<Rightarrow> d | Some s \<Rightarrow> if s = [] then d else s)"

definition or_val :: "'a option \<Rightarrow> 'a \<Rightarrow> 'a" where
  "or_val x d = (case x of None \<Rightarrow> d | Some v \<Rightarrow> v)"

text \<open>
  \<^verbatim>\<open>x || undefined\<close> on an optional string, which is also what the test
  \<^verbatim>\<open>if (item.parent_id)\<close> sees: a reference counts only when it is a non-empty
  string.
\<close>

definition nonempty :: "string option \<Rightarrow> string option" where
  "nonempty x = (case x of None \<Rightarrow> None | Some s \<Rightarrow> if s = [] then None else Some s)"

text \<open>
  The constructor of \<^verbatim>\<open>TrainingItem\<close>. \<open>fresh\<close> is the identifier that
  \<^verbatim>\<open>generateId()\<close> would draw; the children array starts empty.
\<close>

definition new_TrainingItem :: "string \<Rightarrow> date \<Rightarrow> partial_item \<Rightarrow> item" where
  "new_TrainingItem fresh now data =
     \<lparr> item_id = or_str (p_id data) fresh,
       user_id = or_str (p_user_id data) [],
       parent_id = p_parent_id data,
       skill_type = or_val (p_skill_type data) HARD_SKILL,
       estimated_duration_minutes = or_num (p_estimated_duration_minutes data) 30,
       status = or_val (p_status data) NOT_STARTED,
       progress_percentage = or_num (p_progress_percentage data) 0,
       completed_at = p_completed_at data,
       last_practiced_at = p_last_practiced_at data,
       updated_at = or_val (p_updated_at data) now,
       level = or_num (p_level data) 0,
       order_index = or_num (p_order_index data) 0 \<rparr>"

definition isCompleted :: "item \<Rightarrow> bool" where
  "isCompleted this = (status this = COMPLETED \<or> progress_percentage this \<ge> 100)"

text \<open>\<^verbatim>\<open>TrainingItem.updateProgress\<close>, the method of the model class.\<close>

definition updateProgress :: "date \<Rightarrow> number \<Rightarrow> item \<Rightarrow> item" where
  "updateProgress now percentage this =
     (let this1 = this\<lparr> progress_percentage := max 0 (min 100 percentage),
                         last_practiced_at := Some now,
                         updated_at := now \<rparr>
      in if percentage \<ge> 100 \<and> status this1 \<noteq> COMPLETED
         then this1\<lparr> status := COMPLETED, completed_at := Some now \<rparr>
         else if percentage > 0 \<and> status this1 = NOT_STARTED
         then this1\<lparr> status := IN_PROGRESS \<rparr>
         else this1)"

subsection \<open>The record store\<close>

text \<open>
  The table \<^verbatim>\<open>training_items\<close> is keyed by its primary key \<^verbatim>\<open>id\<close>.
  \<^verbatim>\<open>SupabaseService.update\<close> sends the payload, extended with
  \<^verbatim>\<open>updated_at\<close>, to the row with the given id and returns the updated row; it
  throws when no such row exists. A payload field that is \<^verbatim>\<open>undefined\<close> is not
  transmitted, so the column keeps its value.
\<close>

type_synonym table = "string \<rightharpoonup> partial_item"

definition override :: "'a option \<Rightarrow> 'a option \<Rightarrow> 'a option" where
  "override old new = (case new of None \<Rightarrow> old | Some v \<Rightarrow> Some v)"

definition apply_updates :: "partial_item \<Rightarrow> partial_item \<Rightarrow> partial_item" where
  "apply_updates row updates =
     \<lparr> p_id = override (p_id row) (p_id updates),
       p_user_id = override (p_user_id row) (p_user_id updates),
       p_parent_id = override (p_parent_id row) (p_parent_id updates),
       p_skill_type = override (p_skill_type row) (p_skill_type updates),
       p_estimated_duration_minutes =
         override (p_estimated_duration_minutes row) (p_estimated_duration_minutes updates),
       p_status = override (p_status row) (p_status updates),
       p_progress_percentage =
         override (p_progress_percentage row) (p_progress_percentage updates),
       p_completed_at = override (p_completed_at row) (p_completed_at updates),
       p_last_practiced_at = override (p_last_practiced_at row) (p_last_practiced_at updates),
       p_updated_at = override (p_updated_at row) (p_updated_at updates),
       p_level = override (p_level row) (p_level updates),
       p_order_index = override (p_order_index row) (p_order_index updates) \<rparr>"

definition no_updates :: partial_item where
  "no_updates =
     \<lparr> p_id = None, p_user_id = None, p_parent_id = None, p_skill_type = None,
       p_estimated_duration_minutes = None, p_status = None,
       p_progress_percentage = None, p_completed_at = None, p_last_practiced_at = None,
       p_updated_at = None, p_level = None, p_order_index = None \<rparr>"

definition supabase_update ::
  "date \<Rightarrow> table \<Rightarrow> string \<Rightarrow> partial_item \<Rightarrow> (table \<times> partial_item) option" where
  "supabase_update now db i updates =
     (case db i of
        None \<Rightarrow> None
      | Some row \<Rightarrow>
          (let row' = apply_updates row (updates\<lparr> p_updated_at := Some now \<rparr>)
           in Some (db(i \<mapsto> row'), row')))"

text \<open>
  \<^verbatim>\<open>TrainingService.updateTrainingItem\<close>: the updated row is wrapped in a new
  \<^verbatim>\<open>TrainingItem\<close>; a failure of the store is caught and reported as
  \<^verbatim>\<open>null\<close>, the table unchanged.
\<close>

definition updateTrainingItem ::
  "string \<Rightarrow> date \<Rightarrow> table \<Rightarrow> string \<Rightarrow> partial_item \<Rightarrow> table \<times> item option" where
  "updateTrainingItem fresh now db i updates =
     (case supabase_update now db i updates of
        None \<Rightarrow> (db, None)
      | Some (db', result) \<Rightarrow> (db', Some (new_TrainingItem fresh now result)))"

text \<open>\<^verbatim>\<open>TrainingService.updateProgress\<close>, the store-mediated progress update.\<close>

definition progress_updates :: "date \<Rightarrow> number \<Rightarrow> partial_item" where
  "progress_updates now progressPercentage =
     (let updates = no_updates\<lparr> p_progress_percentage := Some (max 0 (min 100 progressPercentage)),
                                 p_last_practiced_at := Some now,
                                 p_updated_at := Some now \<rparr>
      in if progressPercentage \<ge> 100
         then updates\<lparr> p_status := Some COMPLETED, p_completed_at := Some now \<rparr>
         else if progressPercentage > 0
         then updates\<lparr> p_status := Some IN_PROGRESS \<rparr>
         else updates)"

definition service_updateProgress ::
  "string \<Rightarrow> date \<Rightarrow> table \<Rightarrow> string \<Rightarrow> number \<Rightarrow> table \<times> item option" where
  "service_updateProgress fresh now db i progressPercentage =
     updateTrainingItem fresh now db i (progress_updates now progressPercentage)"

text \<open>\<^verbatim>\<open>TrainingService.moveTrainingItem\<close>; \<^verbatim>\<open>newParentId || undefined\<close>.\<close>

definition moveTrainingItem ::
  "string \<Rightarrow> date \<Rightarrow> table \<Rightarrow> string \<Rightarrow> string option \<Rightarrow> number \<Rightarrow> table \<times> item option" where
  "moveTrainingItem fresh now db itemId newParentId newOrderIndex =
     updateTrainingItem fresh now db itemId
       (no_updates\<lparr> p_parent_id := nonempty newParentId,
                     p_order_index := Some newOrderIndex,
                     p_updated_at := Some now \<rparr>)"

subsection \<open>Items with their children: aggregation\<close>

text \<open>
  An acyclic \<^verbatim>\<open>TrainingItem\<close> with its \<^verbatim>\<open>children\<close> array is a finite tree.
  An absent children array and an empty one behave alike in every method below.
\<close>

datatype TrainingItem = TrainingItem (fields: item) (children: "TrainingItem list")

fun getTotalEstimatedTime :: "TrainingItem \<Rightarrow> number" where
  "getTotalEstimatedTime (TrainingItem this cs) =
     estimated_duration_minutes this
       + foldl (\<lambda>sum child. sum + getTotalEstimatedTime child) 0 cs"

fun getOverallProgress :: "TrainingItem \<Rightarrow> number" where
  "getOverallProgress (TrainingItem this cs) =
     (if length cs = 0 then progress_percentage this
      else (let totalWeight = real (length cs + 1);
                childrenProgress = foldl (\<lambda>sum child. sum + getOverallProgress child) 0 cs
            in (progress_percentage this + childrenProgress) / totalWeight))"

section \<open>Tree assembly on a heap of objects\<close>

text \<open>
  \<^verbatim>\<open>buildTrainingTree\<close> links the objects of its input array by pushing each one
  into the \<^verbatim>\<open>children\<close> array of another; the arrays are shared and mutated in
  place. An object is therefore addressed by its position in the input array, and the
  arrays live in a heap: the local array \<^verbatim>\<open>rootItems\<close> and one children array
  per object. The only caller, \<^verbatim>\<open>getTrainingItems\<close>, passes freshly constructed
  items, whose children arrays are empty.
\<close>

type_synonym addr = nat

record heap =
  rootItems :: "addr list"
  childrenOf :: "addr \<Rightarrow> addr list"

datatype aref = RootItems | Children addr

fun rd :: "heap \<Rightarrow> aref \<Rightarrow> addr list" where
  "rd h RootItems = rootItems h"
| "rd h (Children a) = childrenOf h a"

fun wr :: "heap \<Rightarrow> aref \<Rightarrow> addr list \<Rightarrow> heap" where
  "wr h RootItems xs = h\<lparr> rootItems := xs \<rparr>"
| "wr h (Children a) xs = h\<lparr> childrenOf := (childrenOf h)(a := xs) \<rparr>"

text \<open>First pass: \<^verbatim>\<open>itemMap.set(item.id, item)\<close> for every item, in input order.\<close>

definition itemMap_of :: "item list \<Rightarrow> (string \<rightharpoonup> addr)" where
  "itemMap_of items = fold (\<lambda>a m. m(item_id (items ! a) \<mapsto> a)) [0..<length items] Map.empty"

text \<open>
  Second pass, one iteration: an item with a parent reference is pushed to the children
  of the object that \<^verbatim>\<open>itemMap\<close> holds for it, and to no array at all when the
  map has no such entry; an item without parent reference is pushed to
  \<^verbatim>\<open>rootItems\<close>.
\<close>

definition link :: "item list \<Rightarrow> (string \<rightharpoonup> addr) \<Rightarrow> addr \<Rightarrow> heap \<Rightarrow> heap" where
  "link items itemMap a h =
     (case nonempty (parent_id (items ! a)) of
        Some p \<Rightarrow>
          (case itemMap p of
             Some parent \<Rightarrow> wr h (Children parent) (rd h (Children parent) @ [a])
           | None \<Rightarrow> h)
      | None \<Rightarrow> wr h RootItems (rd h RootItems @ [a]))"

definition linked :: "item list \<Rightarrow> heap" where
  "linked items =
     fold (link items (itemMap_of items)) [0..<length items]
       \<lparr> rootItems = [], childrenOf = (\<lambda>a. []) \<rparr>"

text \<open>
  \<^verbatim>\<open>itemsToSort.sort((a, b) => a.order_index - b.order_index)\<close>: the sort of an
  array is stable, as is \<^const>\<open>sort_key\<close>.
\<close>

definition by_order_index :: "item list \<Rightarrow> addr list \<Rightarrow> addr list" where
  "by_order_index items xs = sort_key (\<lambda>a. order_index (items ! a)) xs"

text \<open>
  \<^verbatim>\<open>sortItems\<close> sorts the array it is given in place and calls itself on the
  children array of every element. The recursion is bounded by \<open>fuel\<close>, the depth the
  call stack allows; \<open>None\<close> is the overflow of the stack. The loop runs over the
  array as sorted by this call: a nested call can only sort an array again, which leaves
  a sorted array as it is.
\<close>

fun sortItems :: "nat \<Rightarrow> item list \<Rightarrow> aref \<Rightarrow> heap \<Rightarrow> heap option" where
  "sortItems 0 items itemsToSort h = None"
| "sortItems (Suc fuel) items itemsToSort h =
     (let h1 = wr h itemsToSort (by_order_index items (rd h itemsToSort))
      in fold (\<lambda>a ho. Option.bind ho (sortItems fuel items (Children a)))
           (rd h1 itemsToSort) (Some h1))"

definition buildTrainingTree :: "nat \<Rightarrow> item list \<Rightarrow> heap option" where
  "buildTrainingTree fuel items = sortItems fuel items RootItems (linked items)"

text \<open>
  \<^verbatim>\<open>flattenTree\<close>: \<^verbatim>\<open>addItems\<close> pushes each item to the shared
  \<^verbatim>\<open>result\<close> and then descends into its children.
\<close>

fun addItems :: "nat \<Rightarrow> heap \<Rightarrow> addr list \<Rightarrow> addr list \<Rightarrow> addr list option" where
  "addItems 0 h itemsToAdd result = None"
| "addItems (Suc fuel) h itemsToAdd result =
     fold (\<lambda>a ro. Option.bind ro (\<lambda>r. addItems fuel h (rd h (Children a)) (r @ [a])))
       itemsToAdd (Some result)"

definition flattenTree :: "nat \<Rightarrow> heap \<Rightarrow> addr list option" where
  "flattenTree fuel h = addItems fuel h (rd h RootItems) []"

subsection \<open>Fetching the forest and statistics\<close>

text \<open>
  \<^verbatim>\<open>getTrainingItems\<close> constructs a \<^verbatim>\<open>TrainingItem\<close> from every selected row
  (\<open>gen i\<close> is the identifier \<^verbatim>\<open>generateId()\<close> would draw for row \<open>i\<close>) and
  builds the tree. \<open>selected = None\<close> is a failed query; it and any exception raised
  while building are caught and replaced by the empty array.

  The constructor does not receive the row as it is: the row is spread into an object
  literal whose \<^verbatim>\<open>updated_at\<close> is \<^verbatim>\<open>new Date(item.updated_at)\<close>. That is always
  a date, the epoch for a \<^verbatim>\<open>null\<close> column, so the constructor's default for
  \<^verbatim>\<open>updated_at\<close> never applies to a fetched row.
\<close>

record forest =
  objects :: "item list"
  links :: heap

definition empty_forest :: forest where
  "empty_forest = \<lparr> objects = [], links = \<lparr> rootItems = [], childrenOf = (\<lambda>a. []) \<rparr> \<rparr>"

definition date_of_column :: "date option \<Rightarrow> date" where
  "date_of_column c = (case c of None \<Rightarrow> 0 | Some t \<Rightarrow> t)"

definition row_data :: "partial_item \<Rightarrow> partial_item" where
  "row_data row = row\<lparr> p_updated_at := Some (date_of_column (p_updated_at row)) \<rparr>"

definition construct_all :: "(nat \<Rightarrow> string) \<Rightarrow> date \<Rightarrow> partial_item list \<Rightarrow> item list" where
  "construct_all gen now rows =
     map (\<lambda>(i, row). new_TrainingItem (gen i) now (row_data row)) (enumerate 0 rows)"

definition getTrainingItems ::
  "nat \<Rightarrow> (nat \<Rightarrow> string) \<Rightarrow> date \<Rightarrow> partial_item list option \<Rightarrow> forest" where
  "getTrainingItems fuel gen now selected =
     (case selected of
        None \<Rightarrow> empty_forest
      | Some rows \<Rightarrow>
          (let items = construct_all gen now rows
           in case buildTrainingTree fuel items of
                None \<Rightarrow> empty_forest
              | Some h \<Rightarrow> \<lparr> objects = items, links = h \<rparr>))"

record user_stats =
  totalItems :: nat
  completedItems :: nat
  inProgressItems :: nat
  totalEstimatedHours :: number
  hardSkillsCount :: nat
  softSkillsCount :: nat
  completionRate :: number

definition no_stats :: user_stats where
  "no_stats = \<lparr> totalItems = 0, completedItems = 0, inProgressItems = 0,
                 totalEstimatedHours = 0, hardSkillsCount = 0, softSkillsCount = 0,
                 completionRate = 0 \<rparr>"

text \<open>The record that \<^verbatim>\<open>getUserStats\<close> computes from the flattened items.\<close>

definition stats_of :: "item list \<Rightarrow> user_stats" where
  "stats_of flatItems =
     (let completed = filter isCompleted flatItems;
          inProgress = filter (\<lambda>item. status item = IN_PROGRESS) flatItems;
          hardSkills = filter (\<lambda>item. skill_type item = HARD_SKILL) flatItems;
          softSkills = filter (\<lambda>item. skill_type item = SOFT_SKILL) flatItems
      in \<lparr> totalItems = length flatItems,
           completedItems = length completed,
           inProgressItems = length inProgress,
           totalEstimatedHours =
             foldl (\<lambda>total item. total + estimated_duration_minutes item / 60) 0 flatItems,
           hardSkillsCount = length hardSkills,
           softSkillsCount = length softSkills,
           completionRate =
             (if length flatItems > 0
              then (real (length completed) / real (length flatItems)) * 100 else 0) \<rparr>)"

definition flatItems_of :: "nat \<Rightarrow> forest \<Rightarrow> item list option" where
  "flatItems_of fuel f = map_option (map (\<lambda>a. objects f ! a)) (flattenTree fuel (links f))"

text \<open>
  \<^verbatim>\<open>getUserStats\<close>; an exception in the computation is caught and answered with
  the all-zero record.
\<close>

definition getUserStats ::
  "nat \<Rightarrow> (nat \<Rightarrow> string) \<Rightarrow> date \<Rightarrow> partial_item list option \<Rightarrow> user_stats" where
  "getUserStats fuel gen now selected =
     (case flatItems_of fuel (getTrainingItems fuel gen now selected) of
        None \<Rightarrow> no_stats
      | Some flatItems \<Rightarrow> stats_of flatItems)"

subsection \<open>Drag and drop in the learning tree\<close>

text \<open>
  A \<^verbatim>\<open>TreeNode\<close> of \<^verbatim>\<open>learning-tree.ts\<close> holds its item, a pointer to its
  parent node and its depth; nodes are compared by reference, so they are addressed
  as well. \<^verbatim>\<open>isDescendant\<close> walks the parent pointers in a \<^verbatim>\<open>while\<close> loop,
  bounded here by \<open>fuel\<close>.
\<close>

record TreeNode =
  node_item :: item
  node_parent :: "addr option"
  depth :: number

record TreeState =
  treeNodes :: "addr \<Rightarrow> TreeNode"
  draggedNode :: "addr option"

fun isDescendant_loop :: "nat \<Rightarrow> (addr \<Rightarrow> TreeNode) \<Rightarrow> addr option \<Rightarrow> addr \<Rightarrow> bool option" where
  "isDescendant_loop 0 ns current ancestor = None"
| "isDescendant_loop (Suc fuel) ns current ancestor =
     (case current of
        None \<Rightarrow> Some False
      | Some c \<Rightarrow> if c = ancestor then Some True
                  else isDescendant_loop fuel ns (node_parent (ns c)) ancestor)"

definition isDescendant :: "nat \<Rightarrow> (addr \<Rightarrow> TreeNode) \<Rightarrow> addr \<Rightarrow> addr \<Rightarrow> bool option" where
  "isDescendant fuel ns node ancestor = isDescendant_loop fuel ns (node_parent (ns node)) ancestor"

text \<open>
  \<^verbatim>\<open>onDrop\<close>: the two guards return without any effect; otherwise the dragged
  item's row receives the target as parent and the target's depth plus one as level.
  The subscriber's \<^verbatim>\<open>next\<close> clears \<^verbatim>\<open>draggedNode\<close> also when the update
  reports \<^verbatim>\<open>null\<close>.
\<close>

definition onDrop ::
  "nat \<Rightarrow> string \<Rightarrow> date \<Rightarrow> TreeState \<times> table \<Rightarrow> addr \<Rightarrow> (TreeState \<times> table) option" where
  "onDrop fuel fresh now s targetNode =
     (let (st, db) = s in
      case draggedNode st of
        None \<Rightarrow> Some s
      | Some dragged \<Rightarrow>
          if dragged = targetNode then Some s
          else (case isDescendant fuel (treeNodes st) targetNode dragged of
                  None \<Rightarrow> None
                | Some True \<Rightarrow> Some s
                | Some False \<Rightarrow>
                    (let updates = no_updates\<lparr>
                           p_parent_id := Some (item_id (node_item (treeNodes st targetNode))),
                           p_level := Some (depth (treeNodes st targetNode) + 1),
                           p_updated_at := Some now \<rparr>;
                         (db', result) = updateTrainingItem fresh now db
                                           (item_id (node_item (treeNodes st dragged))) updates
                     in Some (st\<lparr> draggedNode := None \<rparr>, db'))))"

text \<open>
  \<^verbatim>\<open>buildTreeStructure\<close> creates one node per item, with no parent and depth 0,
  registers it under the item's id, and then links every item that has a parent
  reference to the node registered for it; the children array of that node is sorted
  after each push. \<open>ts_nodes\<close> holds the node objects, \<open>ts_children\<close> their
  children arrays, \<open>ts_rootNodes\<close> the local array that is returned.
\<close>

record tree_structure =
  ts_nodes :: "addr \<Rightarrow> TreeNode"
  ts_children :: "addr \<Rightarrow> addr list"
  ts_rootNodes :: "addr list"

definition by_node_order :: "(addr \<Rightarrow> TreeNode) \<Rightarrow> addr list \<Rightarrow> addr list" where
  "by_node_order ns xs = sort_key (\<lambda>n. order_index (node_item (ns n))) xs"

definition new_nodes :: "item list \<Rightarrow> tree_structure" where
  "new_nodes items =
     \<lparr> ts_nodes = (\<lambda>a. \<lparr> node_item = items ! a, node_parent = None, depth = 0 \<rparr>),
       ts_children = (\<lambda>a. []),
       ts_rootNodes = [] \<rparr>"

definition link_node ::
  "item list \<Rightarrow> (string \<rightharpoonup> addr) \<Rightarrow> addr \<Rightarrow> tree_structure \<Rightarrow> tree_structure" where
  "link_node items nodeMap a ts =
     (case nodeMap (item_id (items ! a)) of
        None \<Rightarrow> ts
      | Some node \<Rightarrow>
          (case nonempty (parent_id (items ! a)) of
             Some p \<Rightarrow>
               (case nodeMap p of
                  Some parent \<Rightarrow>
                    ts\<lparr> ts_nodes := (ts_nodes ts)
                           (node := (ts_nodes ts node)
                              \<lparr> node_parent := Some parent,
                                depth := depth (ts_nodes ts parent) + 1 \<rparr>),
                        ts_children := (ts_children ts)
                           (parent := by_node_order (ts_nodes ts)
                                        (ts_children ts parent @ [node])) \<rparr>
                | None \<Rightarrow> ts)
           | None \<Rightarrow> ts\<lparr> ts_rootNodes := ts_rootNodes ts @ [node] \<rparr>))"

definition buildTreeStructure :: "item list \<Rightarrow> tree_structure" where
  "buildTreeStructure items =
     (let ts = fold (link_node items (itemMap_of items)) [0..<length items] (new_nodes items)
      in ts\<lparr> ts_rootNodes := by_node_order (ts_nodes ts) (ts_rootNodes ts) \<rparr>)"

text \<open>
  The component subscribes to \<^verbatim>\<open>trainingItems$\<close>, which emits what
  \<^verbatim>\<open>getTrainingItems\<close> returned: the array of root items. These are the items
  \<^verbatim>\<open>buildTreeStructure\<close> is given. The subscription fires when the service loads
  the items; \<^verbatim>\<open>updateTrainingItem\<close> does not reload them.
\<close>

definition forest_roots :: "forest \<Rightarrow> item list" where
  "forest_roots f = map (\<lambda>a. objects f ! a) (rootItems (links f))"

definition loadTrainingItems :: "TreeState \<Rightarrow> forest \<Rightarrow> TreeState" where
  "loadTrainingItems st f = st\<lparr> treeNodes := ts_nodes (buildTreeStructure (forest_roots f)) \<rparr>"

definition onDragStart :: "TreeState \<Rightarrow> addr \<Rightarrow> TreeState" where
  "onDragStart st node = st\<lparr> draggedNode := Some node \<rparr>"

subsection \<open>Items constructed with children\<close>

text \<open>
  The constructor takes the children array from its argument
  (\<^verbatim>\<open>data.children || []\<close>). \<^verbatim>\<open>getTotalEstimatedTime\<close> calls the method of the
  same name on every child, so the children are constructed items themselves: a tree of
  items is constructed bottom-up from a tree of argument records, each with the
  identifier \<^verbatim>\<open>generateId()\<close> would draw for it.
\<close>

datatype raw_item = Raw string partial_item "raw_item list"

fun construct :: "date \<Rightarrow> raw_item \<Rightarrow> TrainingItem" where
  "construct now (Raw fresh data cs) =
     TrainingItem (new_TrainingItem fresh now data) (map (construct now) cs)"

fun raw_data :: "raw_item \<Rightarrow> partial_item list" where
  "raw_data (Raw fresh data cs) = data # concat (map raw_data cs)"

section \<open>Notions used to state the properties\<close>

text \<open>
  The parent of an object, as the second pass resolves it: the object that
  \<^verbatim>\<open>itemMap\<close> holds for the item's non-empty \<open>parent_id\<close>. A root is an item
  without parent reference.
\<close>

definition parent_of :: "item list \<Rightarrow> addr \<Rightarrow> addr option" where
  "parent_of items a =
     (if a < length items
      then (case nonempty (parent_id (items ! a)) of
              None \<Rightarrow> None | Some p \<Rightarrow> itemMap_of items p)
      else None)"

definition is_root :: "item list \<Rightarrow> addr \<Rightarrow> bool" where
  "is_root items a = (a < length items \<and> nonempty (parent_id (items ! a)) = None)"

text \<open>\<open>at_depth items d a\<close>: following parents from \<open>a\<close> reaches a root after \<open>d\<close> steps.\<close>

fun at_depth :: "item list \<Rightarrow> nat \<Rightarrow> addr \<Rightarrow> bool" where
  "at_depth items 0 a = is_root items a"
| "at_depth items (Suc d) a =
     (case parent_of items a of None \<Rightarrow> False | Some p \<Rightarrow> at_depth items d p)"

text \<open>\<open>anc items k c a\<close>: \<open>a\<close> is the \<open>k\<close>-th ancestor of \<open>c\<close>.\<close>

fun anc :: "item list \<Rightarrow> nat \<Rightarrow> addr \<Rightarrow> addr \<Rightarrow> bool" where
  "anc items 0 c a = (c = a)"
| "anc items (Suc k) c a =
     (case parent_of items c of None \<Rightarrow> False | Some p \<Rightarrow> anc items k p a)"

definition desc :: "item list \<Rightarrow> addr \<Rightarrow> addr set" where
  "desc items a = {c. \<exists>k. anc items k c a}"

text \<open>
  The input is acyclic when no item is its own ancestor, and its references are resolved
  when every non-empty \<open>parent_id\<close> is the \<open>id\<close> of an item of the collection.
\<close>

definition acyclic_items :: "item list \<Rightarrow> bool" where
  "acyclic_items items = (\<forall>a<length items. \<forall>k<length items. \<not> anc items (Suc k) a a)"

definition resolved :: "item list \<Rightarrow> bool" where
  "resolved items =
     (\<forall>a<length items. case nonempty (parent_id (items ! a)) of
                          None \<Rightarrow> True | Some p \<Rightarrow> p \<in> set (map item_id items))"

text \<open>The nodes of a forest: its roots and, recursively, the children of its nodes.\<close>

inductive_set nodes :: "heap \<Rightarrow> addr set" for h :: heap where
  root: "a \<in> set (rootItems h) \<Longrightarrow> a \<in> nodes h"
| child: "p \<in> nodes h \<Longrightarrow> c \<in> set (childrenOf h p) \<Longrightarrow> c \<in> nodes h"

text \<open>
  The minutes an argument record is said to count for: 30 when its
  \<open>estimated_duration_minutes\<close> is absent or 0, and the value it gives otherwise.
\<close>

definition counted_minutes :: "partial_item \<Rightarrow> number" where
  "counted_minutes data =
     (case p_estimated_duration_minutes data of
        None \<Rightarrow> 30
      | Some m \<Rightarrow> if m = 0 then 30 else m)"

text \<open>Auxiliary notions of the proofs about sorting and flattening.\<close>

definition goes_to :: "item list \<Rightarrow> (string \<rightharpoonup> addr) \<Rightarrow> aref \<Rightarrow> addr \<Rightarrow> bool" where
  "goes_to items m r c =
     (case r of
        RootItems \<Rightarrow> nonempty (parent_id (items ! c)) = None
      | Children p \<Rightarrow>
          (case nonempty (parent_id (items ! c)) of None \<Rightarrow> False | Some q \<Rightarrow> m q = Some p))"

definition sorted_of :: "item list \<Rightarrow> aref \<Rightarrow> addr list" where
  "sorted_of items r = by_order_index items (rd (linked items) r)"

definition settled :: "item list \<Rightarrow> heap \<Rightarrow> aref \<Rightarrow> bool" where
  "settled items h r = (rd h r = sorted_of items r)"

definition sort_inv :: "item list \<Rightarrow> heap \<Rightarrow> bool" where
  "sort_inv items h = (\<forall>r. rd h r = rd (linked items) r \<or> settled items h r)"

definition keeps :: "item list \<Rightarrow> heap \<Rightarrow> heap \<Rightarrow> bool" where
  "keeps items h h' = (\<forall>r. settled items h r \<longrightarrow> settled items h' r)"

fun ref_depth :: "item list \<Rightarrow> aref \<Rightarrow> nat \<Rightarrow> bool" where
  "ref_depth items RootItems d = (d = 0)"
| "ref_depth items (Children a) d = (case d of 0 \<Rightarrow> False | Suc d' \<Rightarrow> at_depth items d' a)"

fun parents_first :: "item list \<Rightarrow> addr set \<Rightarrow> addr list \<Rightarrow> bool" where
  "parents_first items S [] = True"
| "parents_first items S (c # L) =
     ((case parent_of items c of None \<Rightarrow> True | Some p \<Rightarrow> p \<in> S) \<and> parents_first items (insert c S) L)"

definition traversal :: "item list \<Rightarrow> nat \<Rightarrow> addr list \<Rightarrow> addr list \<Rightarrow> bool" where
  "traversal items d as L =
     (distinct L
      \<and> set L = (\<Union>a\<in>set as. desc items a)
      \<and> filter (at_depth items d) L = as
      \<and> (\<forall>p\<in>set L. filter (\<lambda>c. parent_of items c = Some p) L = sorted_of items (Children p))
      \<and> (\<forall>S. (\<forall>a\<in>set as. \<forall>p. parent_of items a = Some p \<longrightarrow> p \<in> S) \<longrightarrow> parents_first items S L))"

definition built :: "item list \<Rightarrow> heap \<Rightarrow> bool" where
  "built items h =
     (rootItems h = sorted_of items RootItems
      \<and> (\<forall>d a. at_depth items d a \<longrightarrow> childrenOf h a = sorted_of items (Children a)))"

text \<open>Concrete items for the examples: an identifier, a parent reference, an order index.\<close>

definition example_item :: "string \<Rightarrow> string option \<Rightarrow> number \<Rightarrow> item" where
  "example_item i p k =
     new_TrainingItem ''f'' 0
       (no_updates\<lparr> p_id := Some i, p_parent_id := p, p_order_index := Some k \<rparr>)"

definition example_row :: "string \<Rightarrow> string option \<Rightarrow> number \<Rightarrow> partial_item" where
  "example_row i p l = no_updates\<lparr> p_id := Some i, p_parent_id := p, p_level := Some l \<rparr>"

definition example_node :: "string \<Rightarrow> addr option \<Rightarrow> number \<Rightarrow> TreeNode" where
  "example_node i p d =
     \<lparr> node_item = example_item i None 0, node_parent = p, depth = d \<rparr>"

definition example_nodes :: "addr \<Rightarrow> TreeNode" where
  "example_nodes n = example_node ''x'' None 0"

definition example_ids :: "nat \<Rightarrow> string" where
  "example_ids i = ''f''"

section \<open>Lemmas about the tree assembly\<close>

subsection \<open>The two passes of the assembly\<close>

lemma itemMap_fold_range:
  "fold (\<lambda>a m. m(f a \<mapsto> a)) as m0 p = Some a \<Longrightarrow> m0 p = Some a \<or> a \<in> set as"
proof (induction as arbitrary: m0)
  case Nil
  then show ?case by simp
next
  case (Cons x as)
  from Cons.prems have "fold (\<lambda>a m. m(f a \<mapsto> a)) as (m0(f x \<mapsto> x)) p = Some a"
    by (simp only: fold_simps)
  from Cons.IH [OF this] show ?case
    by (auto split: if_splits)
qed

lemma itemMap_of_less: "itemMap_of items p = Some a \<Longrightarrow> a < length items"
  using itemMap_fold_range [of "\<lambda>a. item_id (items ! a)" "[0..<length items]" Map.empty p a]
  by (simp add: itemMap_of_def)

lemma parent_of_less: "parent_of items c = Some p \<Longrightarrow> c < length items \<and> p < length items"
  by (auto simp: parent_of_def itemMap_of_less split: if_splits option.splits)

lemma is_root_parent: "is_root items a \<Longrightarrow> parent_of items a = None"
  by (simp add: is_root_def parent_of_def)

lemma rd_link:
  "rd (link items m a h) r = rd h r @ (if goes_to items m r a then [a] else [])"
  by (cases r) (auto simp: link_def goes_to_def split: option.splits)

lemma fold_link:
  "rd (fold (link items m) as h) r = rd h r @ filter (goes_to items m r) as"
  by (induction as arbitrary: h) (simp_all add: rd_link)

lemma linked_roots: "rootItems (linked items) = filter (is_root items) [0..<length items]"
  unfolding linked_def rd.simps(1) [symmetric] fold_link
  by (auto simp: is_root_def goes_to_def intro: filter_cong)

lemma linked_children:
  "childrenOf (linked items) p = filter (\<lambda>c. parent_of items c = Some p) [0..<length items]"
  unfolding linked_def rd.simps(2) [symmetric] fold_link
  by (auto simp: parent_of_def goes_to_def intro!: filter_cong split: option.splits)

subsection \<open>Depth: unique, and bounded by the number of items\<close>

lemma at_depth_less: "at_depth items d a \<Longrightarrow> a < length items"
  by (cases d) (auto simp: is_root_def parent_of_less split: option.splits dest: parent_of_less)

lemma at_depth_unique: "at_depth items d a \<Longrightarrow> at_depth items d' a \<Longrightarrow> d = d'"
proof (induction d arbitrary: d' a)
  case 0
  then show ?case by (cases d') (auto simp: is_root_parent)
next
  case (Suc d)
  then show ?case by (cases d') (auto simp: is_root_parent split: option.splits)
qed

lemma at_depth_chain:
  "at_depth items d a \<Longrightarrow>
   \<exists>S. card S = Suc d \<and> S \<subseteq> {0..<length items} \<and> (\<forall>b\<in>S. \<exists>k\<le>d. at_depth items k b)"
proof (induction d arbitrary: a)
  case 0
  then show ?case
    by (intro exI [of _ "{a}"]) (auto simp: is_root_def)
next
  case (Suc d)
  then obtain p where p: "parent_of items a = Some p" "at_depth items d p"
    by (auto split: option.splits)
  from Suc.IH [OF p(2)] obtain S where S: "card S = Suc d" "S \<subseteq> {0..<length items}"
    "\<forall>b\<in>S. \<exists>k\<le>d. at_depth items k b" by blast
  have fin: "finite S" using S(2) finite_subset by blast
  have "a \<notin> S"
  proof
    assume "a \<in> S"
    then obtain k where "k \<le> d" "at_depth items k a" using S(3) by blast
    with at_depth_unique [OF Suc.prems this(2)] show False by simp
  qed
  moreover have "a < length items"
    using p(1) parent_of_less by blast
  moreover have "\<forall>b\<in>insert a S. \<exists>k\<le>Suc d. at_depth items k b"
    using S(3) Suc.prems le_SucI by blast
  ultimately show ?case
    using fin S(1,2) by (intro exI [of _ "insert a S"]) simp

qed

lemma at_depth_bound: "at_depth items d a \<Longrightarrow> d < length items"
proof -
  assume "at_depth items d a"
  from at_depth_chain [OF this] obtain S where "card S = Suc d" "S \<subseteq> {0..<length items}"
    by blast
  then have "Suc d \<le> card {0..<length items}"
    by (metis card_mono finite_atLeastLessThan)
  then show ?thesis by simp
qed

subsection \<open>Ancestors and descendants\<close>

lemma anc_top: "anc items (Suc k) c a \<Longrightarrow> \<exists>b. parent_of items b = Some a \<and> anc items k c b"
proof (induction k arbitrary: c)
  case 0
  then show ?case by (auto split: option.splits)
next
  case (Suc k)
  from Suc.prems obtain p where p: "parent_of items c = Some p" "anc items (Suc k) p a"
    by (auto split: option.splits)
  from Suc.IH [OF p(2)] obtain b where "parent_of items b = Some a" "anc items k p b"
    by blast
  with p(1) show ?case by (intro exI [of _ b]) simp
qed

lemma anc_top_conv: "parent_of items b = Some a \<Longrightarrow> anc items k c b \<Longrightarrow> anc items (Suc k) c a"
proof (induction k arbitrary: c)
  case 0
  then show ?case by simp
next
  case (Suc k)
  from Suc.prems(2) obtain p where p: "parent_of items c = Some p" "anc items k p b"
    by (auto split: option.splits)
  from Suc.IH [OF Suc.prems(1) p(2)] p(1) show ?case by simp
qed

lemma desc_unfold:
  "desc items a = insert a (\<Union>b\<in>{b. parent_of items b = Some a}. desc items b)"
proof (intro set_eqI iffI)
  fix c assume "c \<in> desc items a"
  then obtain k where k: "anc items k c a" by (auto simp: desc_def)
  show "c \<in> insert a (\<Union>b\<in>{b. parent_of items b = Some a}. desc items b)"
  proof (cases k)
    case 0
    with k show ?thesis by simp
  next
    case (Suc k')
    with k anc_top [of items k' c a] show ?thesis by (auto simp: desc_def)
  qed
next
  fix c assume "c \<in> insert a (\<Union>b\<in>{b. parent_of items b = Some a}. desc items b)"
  then consider "c = a" | b k where "parent_of items b = Some a" "anc items k c b"
    by (auto simp: desc_def)
  then show "c \<in> desc items a"
  proof cases
    case 1
    have "anc items 0 a a" by simp
    with 1 show ?thesis unfolding desc_def by blast
  next
    case 2
    from anc_top_conv [OF 2] show ?thesis unfolding desc_def by blast
  qed
qed

lemma anc_depth: "at_depth items d a \<Longrightarrow> anc items k c a \<Longrightarrow> at_depth items (d + k) c"
  by (induction k arbitrary: c) (auto split: option.splits)

lemma set_linked_children:
  "set (childrenOf (linked items) a) = {b. parent_of items b = Some a}"
  unfolding linked_children using parent_of_less by auto

subsection \<open>Sorting: every array is either untouched or sorted\<close>

lemma set_sorted_of [simp]: "set (sorted_of items r) = set (rd (linked items) r)"
  by (simp add: sorted_of_def by_order_index_def)

lemma by_order_index_idem [simp]:
  "by_order_index items (by_order_index items xs) = by_order_index items xs"
  by (simp add: by_order_index_def sort_key_id_if_sorted)

lemma sort_inv_sort: "sort_inv items h \<Longrightarrow> by_order_index items (rd h r) = sorted_of items r"
  unfolding sort_inv_def settled_def sorted_of_def
  by (metis by_order_index_idem)

lemma rd_wr: "rd (wr h r xs) r' = (if r' = r then xs else rd h r')"
  by (cases r; cases r') auto

lemma sort_inv_wr: "sort_inv items h \<Longrightarrow> sort_inv items (wr h r (sorted_of items r))"
  by (auto simp: sort_inv_def settled_def rd_wr)

lemma keeps_wr: "keeps items h (wr h r (sorted_of items r))"
  by (auto simp: keeps_def settled_def rd_wr)

lemma keeps_refl: "keeps items h h"
  by (simp add: keeps_def)

lemma keeps_trans: "keeps items h h' \<Longrightarrow> keeps items h' h'' \<Longrightarrow> keeps items h h''"
  by (simp add: keeps_def)

lemma ref_depth_elems:
  assumes "ref_depth items r d" "a \<in> set (rd (linked items) r)"
  shows "at_depth items d a"
proof (cases r)
  case RootItems
  with assms show ?thesis by (simp add: linked_roots)
next
  case (Children p)
  with assms show ?thesis
    by (cases d) (auto simp: set_linked_children)
qed

lemma ref_depth_le: "ref_depth items r d \<Longrightarrow> d \<le> length items"
  by (cases r; cases d) (auto dest: at_depth_bound)

lemma fold_bind_None [simp]: "fold (\<lambda>a ho. Option.bind ho (g a)) xs None = None"
  by (induction xs) simp_all

lemma fold_sort_children:
  assumes step: "\<And>a h. a \<in> set xs \<Longrightarrow> sort_inv items h \<Longrightarrow>
            \<exists>h'. g a h = Some h' \<and> sort_inv items h' \<and> keeps items h h'
                 \<and> (\<forall>c\<in>desc items a. settled items h' (Children c))"
    and inv: "sort_inv items h"
  shows "\<exists>h'. fold (\<lambda>a ho. Option.bind ho (g a)) xs (Some h) = Some h'
            \<and> sort_inv items h' \<and> keeps items h h'
            \<and> (\<forall>a\<in>set xs. \<forall>c\<in>desc items a. settled items h' (Children c))"
  using assms
proof (induction xs arbitrary: h)
  case Nil
  then show ?case by (simp add: keeps_refl)
next
  case (Cons x xs)
  from Cons.prems(1) [of x h] Cons.prems(2)
  obtain h1 where h1: "g x h = Some h1" "sort_inv items h1" "keeps items h h1"
    "\<forall>c\<in>desc items x. settled items h1 (Children c)" by auto
  have "\<exists>h'. fold (\<lambda>a ho. Option.bind ho (g a)) xs (Some h1) = Some h'
            \<and> sort_inv items h' \<and> keeps items h1 h'
            \<and> (\<forall>a\<in>set xs. \<forall>c\<in>desc items a. settled items h' (Children c))"
    by (rule Cons.IH [OF _ h1(2)]) (use Cons.prems(1) in auto)
  then obtain h' where h': "fold (\<lambda>a ho. Option.bind ho (g a)) xs (Some h1) = Some h'"
    "sort_inv items h'" "keeps items h1 h'"
    "\<forall>a\<in>set xs. \<forall>c\<in>desc items a. settled items h' (Children c)" by blast
  have "\<forall>c\<in>desc items x. settled items h' (Children c)"
    using h1(4) h'(3) by (auto simp: keeps_def)
  with h1 h' show ?case
    by (auto intro: keeps_trans)
qed

lemma sortItems_ok:
  "sort_inv items h \<Longrightarrow> ref_depth items r d \<Longrightarrow> length items < fuel + d \<Longrightarrow>
   \<exists>h'. sortItems fuel items r h = Some h' \<and> sort_inv items h' \<and> keeps items h h'
        \<and> settled items h' r
        \<and> (\<forall>a\<in>set (rd (linked items) r). \<forall>c\<in>desc items a. settled items h' (Children c))"
proof (induction fuel arbitrary: h r d)
  case 0
  then show ?case using ref_depth_le [of items r d] by simp
next
  case (Suc fuel)
  let ?h1 = "wr h r (sorted_of items r)"
  have inv1: "sort_inv items ?h1" by (rule sort_inv_wr [OF Suc.prems(1)])
  have step: "\<exists>h'. sortItems fuel items (Children a) h0 = Some h' \<and> sort_inv items h'
                 \<and> keeps items h0 h' \<and> (\<forall>c\<in>desc items a. settled items h' (Children c))"
    if a: "a \<in> set (sorted_of items r)" and h0: "sort_inv items h0" for a h0
  proof -
    have ad: "at_depth items d a"
      using ref_depth_elems [OF Suc.prems(2)] a by simp
    then have rd: "ref_depth items (Children a) (Suc d)" by simp
    from Suc.IH [OF h0 rd] Suc.prems(3)
    obtain h' where h': "sortItems fuel items (Children a) h0 = Some h'" "sort_inv items h'"
      "keeps items h0 h'" "settled items h' (Children a)"
      "\<forall>b\<in>set (rd (linked items) (Children a)). \<forall>c\<in>desc items b. settled items h' (Children c)"
      by auto
    have "\<forall>c\<in>desc items a. settled items h' (Children c)"
      using h'(4,5) by (subst desc_unfold) (auto simp: set_linked_children)
    with h' show ?thesis by blast
  qed
  from fold_sort_children [of "sorted_of items r" items "\<lambda>a. sortItems fuel items (Children a)" ?h1,
      OF step inv1]
  obtain h' where h': "fold (\<lambda>a ho. Option.bind ho (sortItems fuel items (Children a)))
      (sorted_of items r) (Some ?h1) = Some h'" "sort_inv items h'" "keeps items ?h1 h'"
    "\<forall>a\<in>set (sorted_of items r). \<forall>c\<in>desc items a. settled items h' (Children c)"
    by blast
  have "sortItems (Suc fuel) items r h = Some h'"
    using h'(1) by (simp add: sort_inv_sort [OF Suc.prems(1)] rd_wr Let_def)
  moreover have "keeps items h h'"
    using keeps_wr h'(3) by (rule keeps_trans)
  moreover have "settled items h' r"
    using h'(3) by (simp add: keeps_def settled_def rd_wr)
  ultimately show ?case using h'(2,4) by simp
qed

subsection \<open>Flattening: a pre-order traversal of the sorted forest\<close>

lemma parents_first_append: "parents_first items S (xs @ ys) = (parents_first items S xs \<and> parents_first items (S \<union> set xs) ys)"
  by (induction xs arbitrary: S) (auto simp: insert_commute Un_insert_left)

lemma parents_first_mono: "parents_first items S L \<Longrightarrow> S \<subseteq> S' \<Longrightarrow> parents_first items S' L"
proof (induction L arbitrary: S S')
  case Nil
  show ?case by simp
next
  case (Cons c L)
  have "parents_first items (insert c S') L"
    by (rule Cons.IH [of "insert c S"]) (use Cons.prems in auto)
  with Cons.prems show ?case by (auto split: option.splits)
qed


lemma anc_fun: "anc items k c a \<Longrightarrow> anc items k c a' \<Longrightarrow> a = a'"
  by (induction k arbitrary: c) (auto split: option.splits)

lemma desc_self: "a \<in> desc items a"
proof -
  have "anc items 0 a a" by simp
  then show ?thesis unfolding desc_def by blast
qed

lemma desc_depth:
  "at_depth items d a \<Longrightarrow> c \<in> desc items a \<Longrightarrow> \<exists>k. anc items k c a \<and> at_depth items (d + k) c"
  unfolding desc_def using anc_depth by blast

lemma desc_same_depth:
  assumes "at_depth items d a" "at_depth items d a'" "c \<in> desc items a" "c \<in> desc items a'"
  shows "a = a'"
proof -
  from desc_depth [OF assms(1,3)] obtain k where k: "anc items k c a" "at_depth items (d + k) c"
    by blast
  from desc_depth [OF assms(2,4)] obtain k' where k': "anc items k' c a'"
    "at_depth items (d + k') c" by blast
  from at_depth_unique [OF k(2) k'(2)] have "k = k'" by simp
  with k(1) k'(1) show ?thesis using anc_fun by blast
qed

lemma desc_parent:
  "c \<in> desc items a \<Longrightarrow> c \<noteq> a \<Longrightarrow> parent_of items c = Some p \<Longrightarrow> p \<in> desc items a"
proof -
  assume c: "c \<in> desc items a" "c \<noteq> a" "parent_of items c = Some p"
  then obtain k where k: "anc items k c a" unfolding desc_def by blast
  with c(2) obtain k' where "k = Suc k'" by (cases k) auto
  with k c(3) have "anc items k' p a" by simp
  then show ?thesis unfolding desc_def by blast
qed

lemma traversal_Nil: "traversal items d [] []"
  by (simp add: traversal_def)

lemma traversal_Cons:
  assumes a: "at_depth items d a"
    and as: "\<forall>a'\<in>set as. at_depth items d a'"
    and fresh: "a \<notin> set as"
    and t1: "traversal items (Suc d) (sorted_of items (Children a)) L1"
    and t2: "traversal items d as L2"
  shows "traversal items d (a # as) (a # L1 @ L2)"
proof -
  let ?ks = "sorted_of items (Children a)"
  let ?P = "\<lambda>p c. parent_of items c = Some p"
  have ks: "set ?ks = {b. parent_of items b = Some a}"
    by (simp add: set_linked_children)
  have ks_depth: "at_depth items (Suc d) b" if "b \<in> set ?ks" for b
    using that a ks by simp
  from t1 have d1: "distinct L1" and s1: "set L1 = (\<Union>b\<in>set ?ks. desc items b)"
    and f1: "filter (at_depth items (Suc d)) L1 = ?ks"
    and c1: "\<forall>p\<in>set L1. filter (?P p) L1 = sorted_of items (Children p)"
    and p1: "\<And>S. (\<forall>b\<in>set ?ks. \<forall>p. parent_of items b = Some p \<longrightarrow> p \<in> S) \<Longrightarrow> parents_first items S L1"
    by (simp_all add: traversal_def)
  from t2 have d2: "distinct L2" and s2: "set L2 = (\<Union>b\<in>set as. desc items b)"
    and f2: "filter (at_depth items d) L2 = as"
    and c2: "\<forall>p\<in>set L2. filter (?P p) L2 = sorted_of items (Children p)"
    and p2: "\<And>S. (\<forall>b\<in>set as. \<forall>p. parent_of items b = Some p \<longrightarrow> p \<in> S) \<Longrightarrow> parents_first items S L2"
    by (simp_all add: traversal_def)
  have da: "desc items a = insert a (set L1)"
    unfolding s1 ks by (rule desc_unfold)
  have L1_sub: "set L1 \<subseteq> desc items a"
    using da by blast
  have L1_deep: "\<exists>k. at_depth items (Suc d + k) c" if "c \<in> set L1" for c
  proof -
    from that s1 obtain b where b: "b \<in> set ?ks" "c \<in> desc items b" by blast
    from desc_depth [OF ks_depth [OF b(1)] b(2)] show ?thesis by blast
  qed
  have L2_deep: "\<exists>k. at_depth items (d + k) c" if "c \<in> set L2" for c
  proof -
    from that s2 obtain b where b: "b \<in> set as" "c \<in> desc items b" by blast
    with as have "at_depth items d b" by blast
    from desc_depth [OF this b(2)] show ?thesis by blast
  qed
  have L1_not_d: "\<not> at_depth items d c" if "c \<in> set L1" for c
  proof
    assume "at_depth items d c"
    moreover from L1_deep [OF that] obtain k where "at_depth items (Suc d + k) c" by blast
    ultimately show False using at_depth_unique by fastforce
  qed
  have a1: "a \<notin> set L1" using L1_not_d a by blast
  have disj_a: "c \<notin> set L2" if "c \<in> desc items a" for c
  proof
    assume "c \<in> set L2"
    with s2 obtain b where b: "b \<in> set as" "c \<in> desc items b" by blast
    with as have "at_depth items d b" by blast
    from desc_same_depth [OF a this that b(2)] b(1) fresh show False by simp
  qed
  have a2: "a \<notin> set L2" using disj_a desc_self by blast
  have disj: "set L1 \<inter> set L2 = {}" using L1_sub disj_a by blast
  have dist: "distinct (a # L1 @ L2)" using d1 d2 a1 a2 disj by simp
  have sets: "set (a # L1 @ L2) = (\<Union>b\<in>set (a # as). desc items b)"
    using da s2 by simp
  have filt: "filter (at_depth items d) (a # L1 @ L2) = a # as"
  proof -
    have "filter (at_depth items d) L1 = []"
      using L1_not_d by (simp add: filter_empty_conv)
    with a f2 show ?thesis by simp
  qed
  have L2_anc: "p \<in> set L2" if "c \<in> set L2" "parent_of items c = Some p" "c \<notin> set as" for c p
  proof -
    from that s2 obtain b where b: "b \<in> set as" "c \<in> desc items b" by blast
    with that(3) have "c \<noteq> b" by blast
    from desc_parent [OF b(2) this that(2)] b(1) s2 show ?thesis by blast
  qed
  have L1_anc: "p \<in> set L1" if "c \<in> set L1" "parent_of items c = Some p" "c \<notin> set ?ks" for c p
  proof -
    from that s1 obtain b where b: "b \<in> set ?ks" "c \<in> desc items b" by blast
    with that(3) have "c \<noteq> b" by blast
    from desc_parent [OF b(2) this that(2)] b(1) s1 show ?thesis by blast
  qed
  have as_par: "parent_of items b \<noteq> Some p" if "b \<in> set (a # as)" "p \<in> set (a # L1 @ L2)" for b p
  proof
    assume bp: "parent_of items b = Some p"
    from that(1) a as have bd: "at_depth items d b" by auto
    from that(2) a L1_deep L2_deep obtain k where "at_depth items (d + k) p"
      by (metis add_Suc_shift add_0_right insert_iff list.simps(15) set_append Un_iff Nat.add_0_right)
    with bp have "at_depth items (Suc (d + k)) b" by simp
    from at_depth_unique [OF bd this] show False by simp
  qed
  have child: "filter (?P p) (a # L1 @ L2) = sorted_of items (Children p)"
    if p: "p \<in> set (a # L1 @ L2)" for p
  proof -
    have head: "\<not> ?P p a" using as_par [of a p] p by simp
    consider "p = a" | "p \<in> set L1" | "p \<in> set L2" using p by auto
    then show ?thesis
    proof cases
      case 1
      have "filter (?P a) L1 = filter (?P a) (filter (at_depth items (Suc d)) L1)"
        using a by (auto simp: filter_filter intro!: filter_cong)
      also have "\<dots> = ?ks" unfolding f1 using ks by (simp add: filter_id_conv)
      finally have "filter (?P a) L1 = ?ks" .
      moreover have "filter (?P a) L2 = []"
      proof -
        have "\<not> ?P a c" if "c \<in> set L2" for c
        proof
          assume "?P a c"
          then have "c \<in> set ?ks" using ks by simp
          then have "c \<in> desc items a" using s1 da desc_self by blast
          with disj_a that show False by blast
        qed
        then show ?thesis by (simp add: filter_empty_conv)
      qed
      ultimately show ?thesis using head 1 by simp
    next
      case 2
      have "filter (?P p) L2 = []"
      proof -
        have "\<not> ?P p c" if c: "c \<in> set L2" for c
        proof
          assume pc: "?P p c"
          have "c \<notin> set as" using as_par [of c p] pc p by auto
          from L2_anc [OF c pc this] 2 disj show False by blast
        qed
        then show ?thesis by (simp add: filter_empty_conv)
      qed
      with c1 2 head show ?thesis by simp
    next
      case 3
      have "filter (?P p) L1 = []"
      proof -
        have "\<not> ?P p c" if c: "c \<in> set L1" for c
        proof
          assume pc: "?P p c"
          show False
          proof (cases "c \<in> set ?ks")
            case True
            with ks pc have "p = a" by simp
            with 3 a2 show False by simp
          next
            case False
            from L1_anc [OF c pc False] 3 disj show False by blast
          qed
        qed
        then show ?thesis by (simp add: filter_empty_conv)
      qed
      with c2 3 head show ?thesis by simp
    qed
  qed
  have pfs: "parents_first items S (a # L1 @ L2)"
    if S: "\<forall>b\<in>set (a # as). \<forall>p. parent_of items b = Some p \<longrightarrow> p \<in> S" for S
  proof -
    have "parents_first items (insert a S) L1"
      by (rule p1) (use ks in auto)
    moreover have "parents_first items (insert a S \<union> set L1) L2"
      by (rule p2) (use S in auto)
    ultimately show ?thesis using S by (auto simp: parents_first_append split: option.splits)
  qed
  show ?thesis
    unfolding traversal_def using dist sets filt child pfs by blast
qed

lemma distinct_sorted_of: "distinct (sorted_of items r)"
  by (cases r) (simp_all add: sorted_of_def by_order_index_def linked_roots linked_children)

lemma fold_addItems:
  assumes step: "\<And>a res. a \<in> set as \<Longrightarrow>
            \<exists>L. g a (res @ [a]) = Some (res @ [a] @ L)
                \<and> traversal items (Suc d) (sorted_of items (Children a)) L"
    and depth: "\<forall>a\<in>set as. at_depth items d a"
    and dist: "distinct as"
  shows "\<exists>L. fold (\<lambda>a ro. Option.bind ro (\<lambda>r. g a (r @ [a]))) as (Some res) = Some (res @ L)
            \<and> traversal items d as L"
  using assms
proof (induction as arbitrary: res)
  case Nil
  show ?case by (simp add: traversal_Nil)
next
  case (Cons a as)
  from Cons.prems(1) [of a res] obtain L1 where L1: "g a (res @ [a]) = Some (res @ [a] @ L1)"
    "traversal items (Suc d) (sorted_of items (Children a)) L1" by auto
  have "\<exists>L. fold (\<lambda>a ro. Option.bind ro (\<lambda>r. g a (r @ [a]))) as (Some (res @ [a] @ L1))
              = Some ((res @ [a] @ L1) @ L) \<and> traversal items d as L"
    by (rule Cons.IH) (use Cons.prems in auto)
  then obtain L2 where L2: "fold (\<lambda>a ro. Option.bind ro (\<lambda>r. g a (r @ [a]))) as
      (Some (res @ [a] @ L1)) = Some ((res @ [a] @ L1) @ L2)" "traversal items d as L2"
    by blast
  have "traversal items d (a # as) (a # L1 @ L2)"
    by (rule traversal_Cons [OF _ _ _ L1(2) L2(2)]) (use Cons.prems in auto)
  moreover have "fold (\<lambda>a ro. Option.bind ro (\<lambda>r. g a (r @ [a]))) (a # as) (Some res)
      = Some (res @ a # L1 @ L2)"
    using L1(1) L2(1) by simp
  ultimately show ?case by blast
qed

lemma addItems_ok:
  "built items h \<Longrightarrow> \<forall>a\<in>set as. at_depth items d a \<Longrightarrow> distinct as \<Longrightarrow>
   d \<le> length items \<Longrightarrow> length items < fuel + d \<Longrightarrow>
   \<exists>L. addItems fuel h as res = Some (res @ L) \<and> traversal items d as L"
proof (induction fuel arbitrary: as d res)
  case 0
  then show ?case by simp
next
  case (Suc fuel)
  have step: "\<exists>L. addItems fuel h (rd h (Children a)) (res' @ [a]) = Some (res' @ [a] @ L)
                \<and> traversal items (Suc d) (sorted_of items (Children a)) L"
    if a: "a \<in> set as" for a res'
  proof -
    from a Suc.prems(2) have ad: "at_depth items d a" by blast
    with Suc.prems(1) have ch: "childrenOf h a = sorted_of items (Children a)"
      by (simp add: built_def)
    have el: "\<forall>b\<in>set (sorted_of items (Children a)). at_depth items (Suc d) b"
      using ad by (simp add: set_linked_children)
    have "Suc d \<le> length items" using at_depth_bound [OF ad] by simp
    from Suc.IH [OF Suc.prems(1) el distinct_sorted_of this, of "res' @ [a]"] Suc.prems(5)
    show ?thesis by (simp add: ch)
  qed
  from fold_addItems [of as "\<lambda>a. addItems fuel h (rd h (Children a))" items d res,
      OF step Suc.prems(2,3)]
  show ?case by simp
qed

lemma at_depth_root: "at_depth items d c \<Longrightarrow> \<exists>a. is_root items a \<and> anc items d c a"
  by (induction d arbitrary: c) (auto split: option.splits)

lemma reachable_desc:
  "(\<Union>a\<in>set (sorted_of items RootItems). desc items a) = {c. \<exists>d. at_depth items d c}"
proof (intro set_eqI iffI)
  fix c assume "c \<in> (\<Union>a\<in>set (sorted_of items RootItems). desc items a)"
  then obtain a where a: "is_root items a" "c \<in> desc items a"
    by (auto simp: linked_roots)
  then have "at_depth items 0 a" by simp
  from desc_depth [OF this a(2)] show "c \<in> {c. \<exists>d. at_depth items d c}" by blast
next
  fix c assume "c \<in> {c. \<exists>d. at_depth items d c}"
  then obtain d where "at_depth items d c" by blast
  from at_depth_root [OF this] obtain a where a: "is_root items a" "anc items d c a" by blast
  then have "a \<in> set (sorted_of items RootItems)" "c \<in> desc items a"
    by (auto simp: linked_roots desc_def is_root_def)
  then show "c \<in> (\<Union>a\<in>set (sorted_of items RootItems). desc items a)" by blast
qed

lemma buildTrainingTree_ok:
  assumes "length items < fuel"
  shows "\<exists>h. buildTrainingTree fuel items = Some h \<and> built items h \<and> sort_inv items h"
proof -
  have inv: "sort_inv items (linked items)" by (simp add: sort_inv_def)
  have rd: "ref_depth items RootItems 0" by simp
  from sortItems_ok [OF inv rd, of fuel] assms
  obtain h where h: "sortItems fuel items RootItems (linked items) = Some h" "sort_inv items h"
    "settled items h RootItems"
    "\<forall>a\<in>set (rd (linked items) RootItems). \<forall>c\<in>desc items a. settled items h (Children c)"
    by auto
  have "childrenOf h c = sorted_of items (Children c)" if "at_depth items d c" for d c
  proof -
    from that have "c \<in> (\<Union>a\<in>set (sorted_of items RootItems). desc items a)"
      unfolding reachable_desc by blast
    with h(4) show ?thesis by (auto simp: settled_def)
  qed
  with h(1,2,3) show ?thesis
    by (auto simp: buildTrainingTree_def built_def settled_def)
qed

lemma flattenTree_ok:
  assumes "built items h" "length items < fuel"
  shows "\<exists>L. flattenTree fuel h = Some L \<and> traversal items 0 (rootItems h) L"
proof -
  have r: "rootItems h = sorted_of items RootItems" using assms(1) by (simp add: built_def)
  have el: "\<forall>a\<in>set (rootItems h). at_depth items 0 a"
    by (simp add: r linked_roots)
  have "distinct (rootItems h)" by (simp add: r distinct_sorted_of)
  from addItems_ok [OF assms(1) el this, of fuel "[]"] assms(2)
  show ?thesis by (simp add: flattenTree_def)
qed

subsection \<open>Acyclic collections with resolved references\<close>

lemma itemMap_fold_dom:
  "dom (fold (\<lambda>a m. m(f a \<mapsto> a)) as m0) = dom m0 \<union> f ` set as"
  by (induction as arbitrary: m0) auto

lemma nth_map_ids: "map (\<lambda>a. item_id (items ! a)) [0..<length items] = map item_id items"
  by (rule nth_equalityI) simp_all

lemma itemMap_of_dom: "dom (itemMap_of items) = set (map item_id items)"
proof -
  have "dom (itemMap_of items) = (\<lambda>a. item_id (items ! a)) ` set [0..<length items]"
    unfolding itemMap_of_def by (simp only: itemMap_fold_dom dom_empty Un_empty_left)
  also have "\<dots> = set (map (\<lambda>a. item_id (items ! a)) [0..<length items])"
    by (simp only: set_map)
  finally show ?thesis by (simp only: nth_map_ids)
qed

lemma anc_add: "anc items (i + k) a c = (\<exists>b. anc items i a b \<and> anc items k b c)"
  by (induction i arbitrary: a) (auto split: option.splits)

lemma anc_less: "anc items k a b \<Longrightarrow> a < length items \<Longrightarrow> b < length items"
  by (induction k arbitrary: a) (auto split: option.splits dest: parent_of_less)

lemma no_depth_chain:
  assumes "resolved items" "a < length items" "\<forall>d. \<not> at_depth items d a"
  shows "\<exists>b. anc items k a b \<and> b < length items \<and> (\<forall>d. \<not> at_depth items d b)"
proof (induction k)
  case 0
  from assms show ?case by auto
next
  case (Suc k)
  then obtain b where b: "anc items k a b" "b < length items" "\<forall>d. \<not> at_depth items d b"
    by blast
  from b(3) have "\<not> at_depth items 0 b" by blast
  with b(2) obtain p where p: "nonempty (parent_id (items ! b)) = Some p"
    by (auto simp: is_root_def)
  with assms(1) b(2) have "p \<in> dom (itemMap_of items)"
    unfolding itemMap_of_dom resolved_def by (auto split: option.splits)
  then obtain q where q: "itemMap_of items p = Some q" by blast
  with p b(2) have pq: "parent_of items b = Some q" by (simp add: parent_of_def)
  have "\<not> at_depth items d q" for d
  proof
    assume "at_depth items d q"
    with pq have "at_depth items (Suc d) b" by simp
    with b(3) show False by blast
  qed
  moreover have "anc items (Suc k) a q" using anc_top_conv [OF pq b(1)] .
  moreover have "q < length items" using pq parent_of_less by blast
  ultimately show ?case by blast
qed

lemma all_at_depth:
  assumes res: "resolved items" and acy: "acyclic_items items" and a: "a < length items"
  shows "\<exists>d. at_depth items d a"
proof (rule ccontr)
  assume "\<nexists>d. at_depth items d a"
  then have nd: "\<forall>d. \<not> at_depth items d a" by blast
  have "\<forall>k. \<exists>b. anc items k a b \<and> b < length items"
    using no_depth_chain [OF res a nd] by blast
  then have "\<exists>f. \<forall>k. anc items k a (f k) \<and> f k < length items"
    by (rule choice)
  then obtain f where f: "\<And>k. anc items k a (f k)" "\<And>k. f k < length items"
    by blast
  have "f ` {0..length items} \<subseteq> {0..<length items}" using f(2) by auto
  then have "card (f ` {0..length items}) \<le> card {0..<length items}"
    by (intro card_mono) simp_all
  then have "card (f ` {0..length items}) < card {0..length items}" by simp
  then have "\<not> inj_on f {0..length items}" using pigeonhole by blast
  then obtain x y where xy: "x \<le> length items" "y \<le> length items" "x \<noteq> y" "f x = f y"
    unfolding inj_on_def by auto
  define i where "i = min x y"
  define j where "j = max x y"
  have ij: "i \<le> length items" "j \<le> length items" "i < j" "f i = f j"
    using xy unfolding i_def j_def by (auto simp: min_def max_def)
  define k where "k = j - Suc i"
  have k: "j = i + Suc k" "k < length items"
    using ij(2,3) unfolding k_def by simp_all
  have "anc items (i + Suc k) a (f j)"
    using f(1) [of j] unfolding k(1) [symmetric] .
  then have "\<exists>b. anc items i a b \<and> anc items (Suc k) b (f j)"
    by (simp only: anc_add)
  then obtain b where b: "anc items i a b" "anc items (Suc k) b (f j)" by blast
  have "b = f i" using anc_fun [OF b(1) f(1)] .
  with b(2) ij(4) have "anc items (Suc k) (f i) (f i)" by simp
  with acy f(2) [of i] k(2) show False
    unfolding acyclic_items_def by blast
qed

subsection \<open>The forest that is returned\<close>

lemma nodes_depth: "a \<in> nodes h \<Longrightarrow> built items h \<Longrightarrow> \<exists>d. at_depth items d a"
proof (induction rule: nodes.induct)
  case (root a)
  then have "at_depth items 0 a" by (simp add: built_def linked_roots)
  then show ?case by blast
next
  case (child p c)
  then obtain d where d: "at_depth items d p" by blast
  with child.prems child.hyps have "parent_of items c = Some p"
    by (simp add: built_def set_linked_children)
  with d have "at_depth items (Suc d) c" by simp
  then show ?case by blast
qed

lemma sorted_sorted_of: "sorted (map (\<lambda>a. order_index (items ! a)) (sorted_of items r))"
  by (simp add: sorted_of_def by_order_index_def)

lemma sort_inv_set: "sort_inv items h \<Longrightarrow> set (rd h r) = set (rd (linked items) r)"
proof -
  assume "sort_inv items h"
  then consider "rd h r = rd (linked items) r" | "rd h r = sorted_of items r"
    unfolding sort_inv_def settled_def by blast
  then show ?thesis by cases simp_all
qed

lemma build_flatten:
  assumes "length items < fuel"
  shows "\<exists>h L. buildTrainingTree fuel items = Some h \<and> flattenTree fuel h = Some L
           \<and> built items h \<and> sort_inv items h \<and> traversal items 0 (rootItems h) L
           \<and> set L = {c. \<exists>d. at_depth items d c}"
proof -
  from buildTrainingTree_ok [OF assms] obtain h where h: "buildTrainingTree fuel items = Some h"
    "built items h" "sort_inv items h" by blast
  from flattenTree_ok [OF h(2) assms] obtain L where L: "flattenTree fuel h = Some L"
    "traversal items 0 (rootItems h) L" by blast
  have "set L = {c. \<exists>d. at_depth items d c}"
    using L(2) h(2) reachable_desc [of items] by (simp add: traversal_def built_def)
  with h L show ?thesis by blast
qed

subsection \<open>Evaluation of the examples\<close>

lemma example_item_simps [simp]:
  "item_id (example_item i p k) = (if i = [] then ''f'' else i)"
  "parent_id (example_item i p k) = p"
  "order_index (example_item i p k) = k"
  by (simp_all add: example_item_def new_TrainingItem_def no_updates_def or_str_def or_num_def)

lemmas tree_eval =
  buildTrainingTree_def flattenTree_def itemMap_of_def link_def linked_def nonempty_def
  by_order_index_def parent_of_def is_root_def upt_rec eval_nat_numeral Let_def

lemmas store_eval =
  row_data_def date_of_column_def moveTrainingItem_def updateTrainingItem_def supabase_update_def apply_updates_def
  no_updates_def new_TrainingItem_def override_def or_num_def or_val_def or_str_def
  nonempty_def example_row_def Let_def

section \<open>Tree assembly: the claims\<close>




text \<open>
  Claim C2, as the code has it. An item whose \<open>parent_id\<close> is not the \<open>id\<close> of any
  item of the collection is dropped: it is not a root of the returned forest, it is in
  the children array of no object, it is not a node of the forest, and the flattened
  forest does not contain it.
\<close>

theorem dangling_parent_dropped:
  assumes "a < length items" "nonempty (parent_id (items ! a)) = Some p"
    "p \<notin> set (map item_id items)" "length items < fuel"
  shows "\<exists>h L. buildTrainingTree fuel items = Some h \<and> flattenTree fuel h = Some L
           \<and> a \<notin> set (rootItems h) \<and> (\<forall>b. a \<notin> set (childrenOf h b)) \<and> a \<notin> nodes h \<and> a \<notin> set L"
proof -
  from build_flatten [OF assms(4)] obtain h L where h: "buildTrainingTree fuel items = Some h"
    "flattenTree fuel h = Some L" "built items h" "sort_inv items h"
    "set L = {c. \<exists>d. at_depth items d c}" by blast
  have "p \<notin> dom (itemMap_of items)" using assms(3) by (simp only: itemMap_of_dom not_False_eq_True)
  then have "itemMap_of items p = None" by (simp add: domIff)
  with assms(1,2) have par: "parent_of items a = None" by (simp add: parent_of_def)
  have nr: "\<not> is_root items a" using assms(2) by (simp add: is_root_def)
  have nd: "\<not> at_depth items d a" for d using par nr by (cases d) simp_all
  have "a \<notin> set (rootItems h)"
    using sort_inv_set [OF h(4), of RootItems] nr by (simp add: linked_roots)
  moreover have "a \<notin> set (childrenOf h b)" for b
    using sort_inv_set [OF h(4), of "Children b"] par by (simp add: set_linked_children)
  moreover have "a \<notin> nodes h"
  proof
    assume "a \<in> nodes h"
    from nodes_depth [OF this h(3)] nd show False by blast
  qed
  moreover have "a \<notin> set L" using h(5) nd by simp
  ultimately show ?thesis using h(1,2) by blast
qed

theorem dangling_parent_dropped_witness:
  "(1::nat) < length [example_item ''a'' None 0, example_item ''d'' (Some ''zz'') 0]
   \<and> nonempty (parent_id ([example_item ''a'' None 0, example_item ''d'' (Some ''zz'') 0] ! 1))
       = Some ''zz''
   \<and> ''zz'' \<notin> set (map item_id [example_item ''a'' None 0, example_item ''d'' (Some ''zz'') 0])
   \<and> (\<exists>h L. buildTrainingTree 3 [example_item ''a'' None 0, example_item ''d'' (Some ''zz'') 0]
                 = Some h
            \<and> flattenTree 3 h = Some L \<and> 1 \<notin> set (rootItems h) \<and> 1 \<notin> set L)"
proof -
  let ?ex = "[example_item ''a'' None 0, example_item ''d'' (Some ''zz'') 0]"
  have 1: "(1::nat) < length ?ex" by simp
  have 2: "nonempty (parent_id (?ex ! 1)) = Some ''zz''" by (simp add: nonempty_def)
  have 3: "''zz'' \<notin> set (map item_id ?ex)" by simp
  have 4: "length ?ex < 3" by simp
  from dangling_parent_dropped [OF 1 2 3 4] 1 2 3 show ?thesis by blast
qed

text \<open>
  The claim as written, that such an item becomes a root, fails on the collection that
  consists of the single item \<open>d\<close> referring to the absent \<open>zz\<close>: the forest has no
  root and flattens to the empty list.
\<close>

theorem dangling_parent_not_root_counterexample:
  "map_option rootItems (buildTrainingTree 2 [example_item ''d'' (Some ''zz'') 0]) = Some []
   \<and> Option.bind (buildTrainingTree 2 [example_item ''d'' (Some ''zz'') 0]) (flattenTree 2)
       = Some []"
  by (simp add: tree_eval)

text \<open>
  Claim C3. For every input collection, with a call stack deeper than the collection is
  long, \<^verbatim>\<open>buildTrainingTree\<close> returns a forest whose root array is sorted
  ascending by \<open>order_index\<close> and in which the children array of every node, at every
  depth, is sorted ascending by \<open>order_index\<close>.
\<close>

theorem buildTree_children_sorted: 
  assumes "length items < fuel"
  shows "\<exists>h. buildTrainingTree fuel items = Some h
           \<and> sorted (map (\<lambda>a. order_index (items ! a)) (rootItems h))
           \<and> (\<forall>p\<in>nodes h. sorted (map (\<lambda>a. order_index (items ! a)) (childrenOf h p)))"
proof -
  from buildTrainingTree_ok [OF assms] obtain h where h: "buildTrainingTree fuel items = Some h"
    "built items h" by blast
  have "sorted (map (\<lambda>a. order_index (items ! a)) (childrenOf h p))" if "p \<in> nodes h" for p
  proof -
    from nodes_depth [OF that h(2)] h(2) have "childrenOf h p = sorted_of items (Children p)"
      by (auto simp: built_def)
    then show ?thesis by (simp add: sorted_sorted_of)
  qed
  moreover have "sorted (map (\<lambda>a. order_index (items ! a)) (rootItems h))"
    using h(2) by (simp add: built_def sorted_sorted_of)
  ultimately show ?thesis using h(1) by blast
qed

theorem buildTree_children_sorted_witness:
  "length [example_item ''c'' (Some ''a'') 2, example_item ''a'' None 1,
           example_item ''b'' (Some ''a'') 1] < 4
   \<and> (\<exists>h. buildTrainingTree 4 [example_item ''c'' (Some ''a'') 2, example_item ''a'' None 1,
                                example_item ''b'' (Some ''a'') 1] = Some h
          \<and> rootItems h = [1] \<and> childrenOf h 1 = [2, 0] \<and> 1 \<in> nodes h
          \<and> sorted (map (\<lambda>a. order_index
               ([example_item ''c'' (Some ''a'') 2, example_item ''a'' None 1,
                 example_item ''b'' (Some ''a'') 1] ! a)) (childrenOf h 1)))"
proof -
  let ?ex = "[example_item ''c'' (Some ''a'') 2, example_item ''a'' None 1,
              example_item ''b'' (Some ''a'') 1]"
  have l: "length ?ex < 4" by simp
  from buildTree_children_sorted [OF l] obtain h where h: "buildTrainingTree 4 ?ex = Some h"
    "\<forall>p\<in>nodes h. sorted (map (\<lambda>a. order_index (?ex ! a)) (childrenOf h p))" by blast
  have r: "map_option rootItems (buildTrainingTree 4 ?ex) = Some [1]"
    by (simp add: tree_eval)
  have c: "map_option (\<lambda>h. childrenOf h 1) (buildTrainingTree 4 ?ex) = Some [2, 0]"
    by (simp add: tree_eval)
  from r c h(1) have rc: "rootItems h = [1]" "childrenOf h 1 = [2, 0]" by simp_all
  then have n: "1 \<in> nodes h" by (simp add: nodes.root)
  with h(2) have "sorted (map (\<lambda>a. order_index (?ex ! a)) (childrenOf h 1))" by blast
  with h(1) rc n l show ?thesis by blast
qed

section \<open>Progress aggregation\<close>

lemma foldl_plus_sum_list:
  "foldl (\<lambda>sum child. sum + f child) (a::real) cs = a + sum_list (map f cs)"
  by (induction cs arbitrary: a) simp_all

text \<open>
  Claim C4. A node without children reports its own \<open>progress_percentage\<close>; a node with
  children reports the unweighted mean of its own percentage and the recursively
  computed progress of its immediate children,
  \<open>(self + \<Sum> child progress) / (1 + childCount)\<close>. A node at 100 with two leaf children
  at 0 and 50 reports \<open>(100 + 0 + 50) / 3 = 50\<close>.
\<close>

theorem getOverallProgress_mean:
  "getOverallProgress (TrainingItem this cs) =
     (if cs = [] then progress_percentage this
      else (progress_percentage this + sum_list (map getOverallProgress cs))
             / (1 + real (length cs)))
   \<and> getOverallProgress
       (TrainingItem (this\<lparr> progress_percentage := 100 \<rparr>)
          [TrainingItem (a\<lparr> progress_percentage := 0 \<rparr>) [],
           TrainingItem (b\<lparr> progress_percentage := 50 \<rparr>) []]) = (100 + 0 + 50) / 3
   \<and> (100 + 0 + 50) / 3 = (50::number)"
  by (simp add: foldl_plus_sum_list Let_def add.commute)

section \<open>Progress updates\<close>





lemma updateProgress_status_kept:
  "status this \<noteq> NOT_STARTED \<Longrightarrow> p < 100 \<Longrightarrow>
   status (updateProgress now p this) = status this"
  by (simp add: updateProgress_def Let_def)






text \<open>
  Claim C6 holds for \<^verbatim>\<open>TrainingItem.updateProgress\<close> (lemma
  \<open>updateProgress_status_kept\<close>): a status other than \<open>NOT_STARTED\<close> survives every
  percentage below 100. \<^verbatim>\<open>TrainingService.updateProgress\<close> has no access to the
  current status and writes \<open>IN_PROGRESS\<close> for every percentage strictly between 0 and
  100: lowering a completed item from 100 to 50 through the service reverts its status,
  in the returned item and in the stored row.
\<close>

theorem service_updateProgress_reverts_completed:
  "(let row = no_updates\<lparr> p_id := Some ''a'', p_status := Some COMPLETED,
                            p_progress_percentage := Some 100, p_completed_at := Some 3 \<rparr>;
        (db', result) = service_updateProgress ''f'' 7 [''a'' \<mapsto> row] ''a'' 50
    in map_option status result = Some IN_PROGRESS
       \<and> map_option p_status (db' ''a'') = Some (Some IN_PROGRESS)
       \<and> status (updateProgress 7 50 (new_TrainingItem ''f'' 7 row)) = COMPLETED)"
  by (simp add: service_updateProgress_def updateTrainingItem_def supabase_update_def
      progress_updates_def apply_updates_def no_updates_def new_TrainingItem_def
      override_def or_num_def or_val_def or_str_def updateProgress_def Let_def)

section \<open>Moving an item\<close>

text \<open>
  The tree component guards a drop twice: the target must not be the dragged node, and
  the dragged node must not be among the target's ancestors (\<^verbatim>\<open>// Prevent dropping a
  parent onto its own child\<close>). A guarded drop returns without any effect. The second
  guard reads the \<^verbatim>\<open>parent\<close> pointers of the nodes. The nodes are built from the
  root items, which have no parent reference, so no node of a loaded tree has a parent
  and the walk ends at once: the second guard never rejects a drop.
\<close>

lemmas ui_eval =
  loadTrainingItems_def onDragStart_def onDrop_def isDescendant_def buildTreeStructure_def
  link_node_def new_nodes_def by_node_order_def forest_roots_def getTrainingItems_def
  construct_all_def enumerate_eq_zip example_ids_def

lemma onDrop_onto_itself:
  "draggedNode st = Some targetNode \<Longrightarrow> onDrop fuel fresh now (st, db) targetNode = Some (st, db)"
  by (simp add: onDrop_def)

lemma fold_bind_preserves:
  assumes step: "\<And>a h h'. g a h = Some h' \<Longrightarrow> Q h' = Q h"
    and run: "fold (\<lambda>a ho. Option.bind ho (g a)) xs (Some h) = Some h'"
  shows "Q h' = Q h"
  using run
proof (induction xs arbitrary: h)
  case Nil
  then show ?case by simp
next
  case (Cons x xs)
  show ?case
  proof (cases "g x h")
    case None
    with Cons.prems show ?thesis by simp
  next
    case (Some h1)
    with Cons.prems have "fold (\<lambda>a ho. Option.bind ho (g a)) xs (Some h1) = Some h'" by simp
    from Cons.IH [OF this] step [OF Some] show ?thesis by simp
  qed
qed

lemma sortItems_set:
  "sortItems fuel items r h = Some h' \<Longrightarrow> set (rd h' r') = set (rd h r')"
proof (induction fuel arbitrary: r h h')
  case 0
  then show ?case by simp
next
  case (Suc fuel)
  let ?h1 = "wr h r (by_order_index items (rd h r))"
  have run: "fold (\<lambda>a ho. Option.bind ho (sortItems fuel items (Children a)))
      (rd ?h1 r) (Some ?h1) = Some h'"
    using Suc.prems by (simp add: Let_def)
  have "set (rd h' r') = set (rd ?h1 r')"
    by (rule fold_bind_preserves [of "\<lambda>a. sortItems fuel items (Children a)"
          "\<lambda>h. set (rd h r')", OF _ run]) (rule Suc.IH)
  also have "\<dots> = set (rd h r')"
    by (simp add: rd_wr by_order_index_def)
  finally show ?case .
qed

lemma forest_roots_are_roots:
  assumes "it \<in> set (forest_roots (getTrainingItems fuel gen now selected))"
  shows "nonempty (parent_id it) = None"
proof (cases selected)
  case None
  with assms show ?thesis
    by (simp add: getTrainingItems_def forest_roots_def empty_forest_def)
next
  case (Some rows)
  let ?items = "construct_all gen now rows"
  show ?thesis
  proof (cases "buildTrainingTree fuel ?items")
    case None
    with Some assms show ?thesis
      by (simp add: getTrainingItems_def forest_roots_def empty_forest_def)
  next
    case (Some h)
    from Some have "sortItems fuel ?items RootItems (linked ?items) = Some h"
      by (simp add: buildTrainingTree_def)
    from sortItems_set [OF this, of RootItems]
    have roots: "set (rootItems h) = {a. is_root ?items a}"
      by (simp add: linked_roots is_root_def)
    from assms \<open>selected = Some rows\<close> Some obtain a where
      "a \<in> set (rootItems h)" "it = ?items ! a"
      by (auto simp: getTrainingItems_def forest_roots_def)
    with roots show ?thesis by (simp add: is_root_def)
  qed
qed

lemma link_node_roots_only:
  "nonempty (parent_id (items ! a)) = None \<Longrightarrow>
   ts_nodes (link_node items m a ts) = ts_nodes ts"
  by (simp add: link_node_def split: option.splits)

lemma fold_link_node_roots_only:
  "\<forall>a\<in>set as. nonempty (parent_id (items ! a)) = None \<Longrightarrow>
   ts_nodes (fold (link_node items m) as ts) = ts_nodes ts"
  by (induction as arbitrary: ts) (simp_all add: link_node_roots_only)

lemma buildTreeStructure_roots_only:
  assumes "\<forall>it\<in>set items. nonempty (parent_id it) = None"
  shows "node_parent (ts_nodes (buildTreeStructure items) n) = None"
proof -
  have "\<forall>a\<in>set [0..<length items]. nonempty (parent_id (items ! a)) = None"
    using assms by simp
  from fold_link_node_roots_only [OF this] show ?thesis
    by (simp add: buildTreeStructure_def new_nodes_def Let_def)
qed

lemma loaded_nodes_have_no_parent:
  "node_parent
     (treeNodes (loadTrainingItems st (getTrainingItems fuel gen now selected)) n) = None"
  using buildTreeStructure_roots_only [of "forest_roots (getTrainingItems fuel gen now selected)" n]
    forest_roots_are_roots [of _ fuel gen now selected]
  by (simp add: loadTrainingItems_def)

lemma isDescendant_never_in_loaded_tree:
  "isDescendant (Suc fuel') (treeNodes (loadTrainingItems st (getTrainingItems fuel gen now selected)))
     node ancestor = Some False"
  by (simp add: isDescendant_def loaded_nodes_have_no_parent)

text \<open>
  Claim C7 against the code. \<^verbatim>\<open>moveTrainingItem\<close> has neither guard: in a table
  where \<open>b\<close> is the child of the root \<open>a\<close>, moving \<open>a\<close> under \<open>b\<close> stores \<open>b\<close> as
  the parent of \<open>a\<close>, and the two rows refer to each other. The tree component reaches
  the same table from two roots \<open>a\<close> and \<open>b\<close>: dropping \<open>a\<close> onto \<open>b\<close> stores \<open>b\<close> as
  the parent of \<open>a\<close>, and dropping \<open>b\<close> onto \<open>a\<close>, now its child in the table, is not
  rejected and stores \<open>a\<close> as the parent of \<open>b\<close>.
\<close>

theorem move_under_descendant_stores_cycle:
  "map_option p_parent_id
     (fst (moveTrainingItem ''f'' 7
             [''a'' \<mapsto> example_row ''a'' None 0, ''b'' \<mapsto> example_row ''b'' (Some ''a'') 1]
             ''a'' (Some ''b'') 0) ''a'')
     = Some (Some ''b'')
   \<and> map_option p_parent_id
       (fst (moveTrainingItem ''f'' 7
               [''a'' \<mapsto> example_row ''a'' None 0, ''b'' \<mapsto> example_row ''b'' (Some ''a'') 1]
               ''a'' (Some ''b'') 0) ''b'')
       = Some (Some ''a'')
   \<and> (case onDrop 5 ''f'' 7
              (onDragStart
                 (loadTrainingItems \<lparr> treeNodes = example_nodes, draggedNode = None \<rparr>
                    (getTrainingItems 5 example_ids 7
                       (Some [example_row ''a'' None 0, example_row ''b'' None 0])))
                 0,
               [''a'' \<mapsto> example_row ''a'' None 0, ''b'' \<mapsto> example_row ''b'' None 0])
              1 of
         None \<Rightarrow> False
       | Some (st1, db1) \<Rightarrow>
           map_option p_parent_id (db1 ''a'') = Some (Some ''b'')
           \<and> map_option p_parent_id (db1 ''b'') = Some None
           \<and> (case onDrop 5 ''f'' 7 (onDragStart st1 1, db1) 0 of
                 None \<Rightarrow> False
               | Some (st2, db2) \<Rightarrow>
                   map_option p_parent_id (db2 ''a'') = Some (Some ''b'')
                   \<and> map_option p_parent_id (db2 ''b'') = Some (Some ''a'')))"
  by (simp add: store_eval ui_eval tree_eval)

text \<open>
  Claim C8 against the code. In the table \<open>a\<close> and \<open>b\<close> are roots at level 0 and \<open>c\<close>
  is a child of \<open>b\<close> at level 1. \<^verbatim>\<open>moveTrainingItem\<close> of \<open>b\<close> under \<open>a\<close> stores
  the new parent and leaves every level as it was: \<open>b\<close> stays at level 0 and \<open>c\<close> at
  level 1, where the claim has 1 and 2. \<^verbatim>\<open>onDrop\<close> of \<open>b\<close> onto \<open>a\<close> stores level
  1 for \<open>b\<close> and leaves \<open>c\<close> at level 1.
\<close>

theorem move_keeps_levels:
  "(let db = [''a'' \<mapsto> example_row ''a'' None 0, ''b'' \<mapsto> example_row ''b'' None 0,
              ''c'' \<mapsto> example_row ''c'' (Some ''b'') 1];
        (db', result) = moveTrainingItem ''f'' 7 db ''b'' (Some ''a'') 0
    in map_option p_parent_id (db' ''b'') = Some (Some ''a'')
       \<and> map_option p_level (db' ''a'') = Some (Some 0)
       \<and> map_option p_level (db' ''b'') = Some (Some 0)
       \<and> map_option p_level (db' ''c'') = Some (Some 1)
       \<and> map_option level result = Some 0)
   \<and> (let db = [''a'' \<mapsto> example_row ''a'' None 0, ''b'' \<mapsto> example_row ''b'' None 0,
                ''c'' \<mapsto> example_row ''c'' (Some ''b'') 1];
          st = \<lparr> treeNodes = example_nodes
                    (0 := example_node ''a'' None 0, 1 := example_node ''b'' None 0,
                     2 := example_node ''c'' (Some 1) 1),
                  draggedNode = Some 1 \<rparr>
      in case onDrop 5 ''f'' 7 (st, db) 0 of
           None \<Rightarrow> False
         | Some (st', db') \<Rightarrow>
             map_option p_parent_id (db' ''b'') = Some (Some ''a'')
             \<and> map_option p_level (db' ''b'') = Some (Some 1)
             \<and> map_option p_level (db' ''c'') = Some (Some 1))"
  by (simp add: store_eval onDrop_def isDescendant_def example_node_def eval_nat_numeral)

section \<open>Statistics\<close>

lemma stats_of_Nil: "stats_of [] = no_stats"
  by (simp add: stats_of_def no_stats_def)

lemma getUserStats_empty:
  "getUserStats fuel gen now None = no_stats" "getUserStats fuel gen now (Some []) = no_stats"
  by (cases fuel; simp add: getUserStats_def getTrainingItems_def flatItems_of_def empty_forest_def
      flattenTree_def buildTrainingTree_def construct_all_def linked_def stats_of_Nil by_order_index_def)+

lemma totalEstimatedHours_sum:
  "totalEstimatedHours (stats_of flat) = sum_list (map (\<lambda>item. estimated_duration_minutes item / 60) flat)"
  by (simp add: stats_of_def foldl_plus_sum_list Let_def)

lemma length_construct_all: "length (construct_all gen now rows) = length rows"
  by (simp add: construct_all_def)

lemma getUserStats_flat:
  assumes "length rows < fuel"
  shows "\<exists>flat. flatItems_of fuel (getTrainingItems fuel gen now (Some rows)) = Some flat
           \<and> getUserStats fuel gen now (Some rows) = stats_of flat"
proof -
  have "length (construct_all gen now rows) < fuel"
    using assms by (simp only: length_construct_all)
  from build_flatten [OF this] obtain h L where
    "buildTrainingTree fuel (construct_all gen now rows) = Some h" "flattenTree fuel h = Some L"
    by blast
  then show ?thesis
    by (simp add: getUserStats_def getTrainingItems_def flatItems_of_def)
qed

text \<open>
  Claim C9, as the code has it. \<^verbatim>\<open>getUserStats\<close> counts as completed exactly the
  flattened items with status \<open>COMPLETED\<close> or a percentage of at least 100; its
  \<open>completionRate\<close> is the percentage \<open>completed / total * 100\<close>, and 0 when there is
  no item. With a call stack deeper than the number of rows the record is computed
  from the flattened forest of these rows. On an empty forest, and on a failed query,
  every count and the rate are 0.
\<close>

theorem getUserStats_counts:
  "completedItems (stats_of flat)
     = length (filter (\<lambda>item. status item = COMPLETED \<or> progress_percentage item \<ge> 100) flat)
   \<and> totalItems (stats_of flat) = length flat
   \<and> completionRate (stats_of flat)
       = (if flat = [] then 0
          else real (completedItems (stats_of flat)) / real (totalItems (stats_of flat)) * 100)
   \<and> (length rows < fuel \<longrightarrow>
        (\<exists>flatItems. flatItems_of fuel (getTrainingItems fuel gen now (Some rows)) = Some flatItems
           \<and> getUserStats fuel gen now (Some rows) = stats_of flatItems))
   \<and> stats_of [] = no_stats
   \<and> getUserStats fuel gen now (Some []) = no_stats
   \<and> getUserStats fuel gen now None = no_stats
   \<and> completionRate no_stats = 0 \<and> totalItems no_stats = 0 \<and> completedItems no_stats = 0
   \<and> inProgressItems no_stats = 0 \<and> hardSkillsCount no_stats = 0
   \<and> softSkillsCount no_stats = 0 \<and> totalEstimatedHours no_stats = 0"
proof -
  have "completedItems (stats_of flat)
     = length (filter (\<lambda>item. status item = COMPLETED \<or> progress_percentage item \<ge> 100) flat)"
    by (simp add: stats_of_def isCompleted_def [abs_def] Let_def)
  moreover have "totalItems (stats_of flat) = length flat"
    by (simp add: stats_of_def Let_def)
  moreover have "completionRate (stats_of flat)
       = (if flat = [] then 0
          else real (completedItems (stats_of flat)) / real (totalItems (stats_of flat)) * 100)"
    by (simp add: stats_of_def Let_def)
  moreover have "length rows < fuel \<longrightarrow>
        (\<exists>flatItems. flatItems_of fuel (getTrainingItems fuel gen now (Some rows)) = Some flatItems
           \<and> getUserStats fuel gen now (Some rows) = stats_of flatItems)"
    using getUserStats_flat [of rows fuel gen now] by blast
  ultimately show ?thesis
    using getUserStats_empty [of fuel gen now] stats_of_Nil
    by (simp add: no_stats_def)
qed

theorem getUserStats_counts_witness:
  "length [(example_row ''a'' None 0)\<lparr> p_status := Some COMPLETED \<rparr>, example_row ''b'' None 0]
     < 3
   \<and> (\<exists>flatItems.
         flatItems_of 3 (getTrainingItems 3 example_ids 7
           (Some [(example_row ''a'' None 0)\<lparr> p_status := Some COMPLETED \<rparr>,
                  example_row ''b'' None 0])) = Some flatItems
         \<and> getUserStats 3 example_ids 7
             (Some [(example_row ''a'' None 0)\<lparr> p_status := Some COMPLETED \<rparr>,
                    example_row ''b'' None 0]) = stats_of flatItems)
   \<and> completionRate (getUserStats 3 example_ids 7
         (Some [(example_row ''a'' None 0)\<lparr> p_status := Some COMPLETED \<rparr>,
                example_row ''b'' None 0])) = 50"
proof -
  let ?rows = "[(example_row ''a'' None 0)\<lparr> p_status := Some COMPLETED \<rparr>,
                example_row ''b'' None 0]"
  have l: "length ?rows < 3" by simp
  have "completionRate (getUserStats 3 example_ids 7 (Some ?rows)) = 50"
    by (simp add: getUserStats_def getTrainingItems_def flatItems_of_def construct_all_def
      stats_of_def isCompleted_def [abs_def] tree_eval store_eval enumerate_eq_zip)
  with getUserStats_counts [of _ ?rows 3 example_ids 7] l show ?thesis by blast
qed

text \<open>
  The claim as written, a rate equal to completed divided by total, fails on a forest of
  one completed item: the quotient is 1 and the rate is 100.
\<close>

theorem completionRate_percentage_counterexample:
  "totalItems (getUserStats 2 example_ids 7
       (Some [(example_row ''a'' None 0)\<lparr> p_status := Some COMPLETED \<rparr>])) = 1
   \<and> completedItems (getUserStats 2 example_ids 7
       (Some [(example_row ''a'' None 0)\<lparr> p_status := Some COMPLETED \<rparr>])) = 1
   \<and> completionRate (getUserStats 2 example_ids 7
       (Some [(example_row ''a'' None 0)\<lparr> p_status := Some COMPLETED \<rparr>])) = 100
   \<and> real (completedItems (getUserStats 2 example_ids 7
         (Some [(example_row ''a'' None 0)\<lparr> p_status := Some COMPLETED \<rparr>])))
       / real (totalItems (getUserStats 2 example_ids 7
         (Some [(example_row ''a'' None 0)\<lparr> p_status := Some COMPLETED \<rparr>]))) = 1"
  by (simp add: getUserStats_def getTrainingItems_def flatItems_of_def construct_all_def
      stats_of_def isCompleted_def [abs_def] tree_eval store_eval enumerate_eq_zip)

subsection \<open>Estimated time\<close>

lemma new_TrainingItem_duration:
  "estimated_duration_minutes (new_TrainingItem fresh now data) = counted_minutes data"
  by (simp add: new_TrainingItem_def or_num_def counted_minutes_def)

lemma counted_minutes_row_data: "counted_minutes (row_data row) = counted_minutes row"
  by (simp add: counted_minutes_def row_data_def)

lemma counted_minutes_default:
  "p_estimated_duration_minutes data = None \<or> p_estimated_duration_minutes data = Some 0 \<Longrightarrow>
   counted_minutes data = 30"
  by (auto simp: counted_minutes_def)

lemma counted_minutes_nonzero: "counted_minutes data \<noteq> 0"
  by (simp add: counted_minutes_def split: option.splits)

lemma getTotalEstimatedTime_sum:
  "getTotalEstimatedTime (construct now raw) = sum_list (map counted_minutes (raw_data raw))"
proof (induction raw)
  case (Raw fresh data cs)
  have "sum_list (map (\<lambda>c. getTotalEstimatedTime (construct now c)) cs)
      = sum_list (map (\<lambda>c. sum_list (map counted_minutes (raw_data c))) cs)"
    using Raw.IH by (intro arg_cong [of _ _ sum_list] map_cong) simp_all
  also have "\<dots> = sum_list (map counted_minutes (concat (map raw_data cs)))"
    by (induction cs) simp_all
  finally show ?case
    by (simp add: foldl_plus_sum_list new_TrainingItem_duration comp_def)
qed

lemma sum_list_const:
  "\<forall>x\<in>set xs. f x = (c::real) \<Longrightarrow> sum_list (map f xs) = real (length xs) * c"
  by (induction xs) (simp_all add: algebra_simps)

lemma construct_all_nth:
  "a < length rows \<Longrightarrow>
   construct_all gen now rows ! a = new_TrainingItem (gen a) now (row_data (rows ! a))"
  by (simp add: construct_all_def nth_enumerate_eq)

lemma getUserStats_total:
  assumes "length rows < fuel"
  shows "\<exists>L. flattenTree fuel (links (getTrainingItems fuel gen now (Some rows))) = Some L
           \<and> distinct L \<and> set L \<subseteq> {0..<length rows}
           \<and> totalEstimatedHours (getUserStats fuel gen now (Some rows))
               = sum_list (map (\<lambda>a. counted_minutes (rows ! a) / 60) L)
           \<and> (acyclic_items (construct_all gen now rows) \<and> resolved (construct_all gen now rows)
                \<longrightarrow> set L = {0..<length rows})"
proof -
  let ?items = "construct_all gen now rows"
  have len: "length ?items = length rows" by (rule length_construct_all)
  then have "length ?items < fuel" using assms by simp
  from build_flatten [OF this] obtain h L where h: "buildTrainingTree fuel ?items = Some h"
    "flattenTree fuel h = Some L" "traversal ?items 0 (rootItems h) L"
    "set L = {c. \<exists>d. at_depth ?items d c}" by blast
  have dist: "distinct L" using h(3) by (simp add: traversal_def)
  have sub: "set L \<subseteq> {0..<length rows}"
    unfolding h(4) using at_depth_less [of ?items] len by auto
  have forest: "getTrainingItems fuel gen now (Some rows) = \<lparr> objects = ?items, links = h \<rparr>"
    using h(1) by (simp add: getTrainingItems_def)
  have "getUserStats fuel gen now (Some rows) = stats_of (map (\<lambda>a. ?items ! a) L)"
    using h(2) by (simp add: getUserStats_def flatItems_of_def forest)
  then have "totalEstimatedHours (getUserStats fuel gen now (Some rows))
      = sum_list (map (\<lambda>a. estimated_duration_minutes (?items ! a) / 60) L)"
    by (simp add: totalEstimatedHours_sum comp_def)
  also have "\<dots> = sum_list (map (\<lambda>a. counted_minutes (rows ! a) / 60) L)"
  proof (intro arg_cong [of _ _ sum_list] map_cong refl)
    fix a assume "a \<in> set L"
    with sub have "a < length rows" by auto
    then show "estimated_duration_minutes (?items ! a) / 60 = counted_minutes (rows ! a) / 60"
      by (simp add: construct_all_nth new_TrainingItem_duration counted_minutes_row_data)
  qed
  finally have total: "totalEstimatedHours (getUserStats fuel gen now (Some rows))
      = sum_list (map (\<lambda>a. counted_minutes (rows ! a) / 60) L)" .
  have full: "set L = {0..<length rows}" if "acyclic_items ?items" "resolved ?items"
    unfolding h(4) using all_at_depth [OF that(2,1)] at_depth_less [of ?items] len by auto
  from h(2) dist sub total full forest show ?thesis by auto
qed

text \<open>
  Claim C10, as the code has it. The constructor never produces an item with an
  estimated duration of 0: an absent duration or a duration of 0 becomes 30, any other
  duration is kept. \<^verbatim>\<open>getTotalEstimatedTime\<close> of a constructed tree of items is the
  sum of these minutes over all argument records of the tree, 30 minutes for each record
  when every duration is absent or 0. With a call stack deeper than the number of rows,
  the total of \<^verbatim>\<open>getUserStats\<close> is the sum of these minutes, in hours, over the
  rows of the flattened forest, each counted once: half an hour for each of them when
  every duration is absent or 0. The flattened forest holds every row when the rows are
  acyclic and every parent reference resolves.
\<close>

theorem zero_duration_counts_30:
  "estimated_duration_minutes (new_TrainingItem fresh now data) \<noteq> 0
   \<and> estimated_duration_minutes (new_TrainingItem fresh now data) = counted_minutes data
   \<and> (p_estimated_duration_minutes data = None \<or> p_estimated_duration_minutes data = Some 0 \<longrightarrow>
        counted_minutes data = 30
        \<and> estimated_duration_minutes (new_TrainingItem fresh now data) = 30)
   \<and> getTotalEstimatedTime (construct now raw) = sum_list (map counted_minutes (raw_data raw))
   \<and> ((\<forall>d\<in>set (raw_data raw). p_estimated_duration_minutes d = None
                                \<or> p_estimated_duration_minutes d = Some 0) \<longrightarrow>
        getTotalEstimatedTime (construct now raw) = real (length (raw_data raw)) * 30)
   \<and> (length rows < fuel \<longrightarrow>
        (\<exists>L. flattenTree fuel (links (getTrainingItems fuel gen now (Some rows))) = Some L
           \<and> distinct L \<and> set L \<subseteq> {0..<length rows}
           \<and> totalEstimatedHours (getUserStats fuel gen now (Some rows))
               = sum_list (map (\<lambda>a. counted_minutes (rows ! a) / 60) L)
           \<and> ((\<forall>a\<in>set L. p_estimated_duration_minutes (rows ! a) = None
                           \<or> p_estimated_duration_minutes (rows ! a) = Some 0) \<longrightarrow>
                totalEstimatedHours (getUserStats fuel gen now (Some rows))
                  = real (length L) * (30 / 60))
           \<and> (acyclic_items (construct_all gen now rows) \<and> resolved (construct_all gen now rows)
                \<longrightarrow> set L = {0..<length rows})))"
proof -
  have 1: "estimated_duration_minutes (new_TrainingItem fresh now data) \<noteq> 0"
    by (simp add: new_TrainingItem_duration counted_minutes_nonzero)
  have 2: "p_estimated_duration_minutes data = None \<or> p_estimated_duration_minutes data = Some 0 \<longrightarrow>
        counted_minutes data = 30
        \<and> estimated_duration_minutes (new_TrainingItem fresh now data) = 30"
    using counted_minutes_default [of data] by (simp add: new_TrainingItem_duration)
  have 3: "getTotalEstimatedTime (construct now raw) = real (length (raw_data raw)) * 30"
    if "\<forall>d\<in>set (raw_data raw). p_estimated_duration_minutes d = None
                                \<or> p_estimated_duration_minutes d = Some 0"
  proof -
    have "\<forall>d\<in>set (raw_data raw). counted_minutes d = 30"
      using that counted_minutes_default by blast
    from sum_list_const [OF this] show ?thesis by (simp only: getTotalEstimatedTime_sum)
  qed
  have 4: "\<exists>L. flattenTree fuel (links (getTrainingItems fuel gen now (Some rows))) = Some L
           \<and> distinct L \<and> set L \<subseteq> {0..<length rows}
           \<and> totalEstimatedHours (getUserStats fuel gen now (Some rows))
               = sum_list (map (\<lambda>a. counted_minutes (rows ! a) / 60) L)
           \<and> ((\<forall>a\<in>set L. p_estimated_duration_minutes (rows ! a) = None
                           \<or> p_estimated_duration_minutes (rows ! a) = Some 0) \<longrightarrow>
                totalEstimatedHours (getUserStats fuel gen now (Some rows))
                  = real (length L) * (30 / 60))
           \<and> (acyclic_items (construct_all gen now rows) \<and> resolved (construct_all gen now rows)
                \<longrightarrow> set L = {0..<length rows})"
    if "length rows < fuel"
  proof -
    from getUserStats_total [OF that, of gen now] obtain L where
      L: "flattenTree fuel (links (getTrainingItems fuel gen now (Some rows))) = Some L"
      "distinct L" "set L \<subseteq> {0..<length rows}"
      "totalEstimatedHours (getUserStats fuel gen now (Some rows))
         = sum_list (map (\<lambda>a. counted_minutes (rows ! a) / 60) L)"
      "acyclic_items (construct_all gen now rows) \<and> resolved (construct_all gen now rows)
         \<longrightarrow> set L = {0..<length rows}" by blast
    have "totalEstimatedHours (getUserStats fuel gen now (Some rows)) = real (length L) * (30 / 60)"
      if z: "\<forall>a\<in>set L. p_estimated_duration_minutes (rows ! a) = None
                           \<or> p_estimated_duration_minutes (rows ! a) = Some 0"
    proof -
      have "\<forall>a\<in>set L. counted_minutes (rows ! a) / 60 = 30 / 60"
        using z counted_minutes_default by auto
      from sum_list_const [OF this] L(4) show ?thesis by simp
    qed
    with L show ?thesis by blast
  qed
  from 1 2 3 4 show ?thesis
    by (simp only: new_TrainingItem_duration getTotalEstimatedTime_sum) blast
qed

theorem zero_duration_counts_30_witness:
  "p_estimated_duration_minutes
       ((example_row ''a'' None 0)\<lparr> p_estimated_duration_minutes := Some 0 \<rparr>) = Some 0
   \<and> p_estimated_duration_minutes (example_row ''b'' (Some ''a'') 1) = None
   \<and> estimated_duration_minutes (new_TrainingItem ''f'' 7
         ((example_row ''a'' None 0)\<lparr> p_estimated_duration_minutes := Some 0 \<rparr>)) = 30
   \<and> getTotalEstimatedTime (construct 7
         (Raw ''f'' ((example_row ''a'' None 0)\<lparr> p_estimated_duration_minutes := Some 0 \<rparr>)
            [Raw ''g'' (example_row ''b'' (Some ''a'') 1) []])) = 60
   \<and> length [(example_row ''a'' None 0)\<lparr> p_estimated_duration_minutes := Some 0 \<rparr>,
              example_row ''b'' (Some ''a'') 1] < 3
   \<and> acyclic_items (construct_all example_ids 7
         [(example_row ''a'' None 0)\<lparr> p_estimated_duration_minutes := Some 0 \<rparr>,
          example_row ''b'' (Some ''a'') 1])
   \<and> resolved (construct_all example_ids 7
         [(example_row ''a'' None 0)\<lparr> p_estimated_duration_minutes := Some 0 \<rparr>,
          example_row ''b'' (Some ''a'') 1])
   \<and> totalEstimatedHours (getUserStats 3 example_ids 7
         (Some [(example_row ''a'' None 0)\<lparr> p_estimated_duration_minutes := Some 0 \<rparr>,
                example_row ''b'' (Some ''a'') 1])) = 1"
proof -
  let ?a = "(example_row ''a'' None 0)\<lparr> p_estimated_duration_minutes := Some 0 \<rparr>"
  let ?b = "example_row ''b'' (Some ''a'') 1"
  let ?raw = "Raw ''f'' ?a [Raw ''g'' ?b []]"
  let ?rows = "[?a, ?b]"
  have za: "p_estimated_duration_minutes ?a = Some 0" by simp
  have zb: "p_estimated_duration_minutes ?b = None"
    by (simp add: example_row_def no_updates_def)
  have zraw: "\<forall>d\<in>set (raw_data ?raw). p_estimated_duration_minutes d = None
                                      \<or> p_estimated_duration_minutes d = Some 0"
    using zb by simp
  have zrows: "\<forall>a\<in>{0..<length ?rows}. p_estimated_duration_minutes (?rows ! a) = None
                                      \<or> p_estimated_duration_minutes (?rows ! a) = Some 0"
    using zb by (simp add: atLeast0_lessThan_Suc eval_nat_numeral)
  have l: "length ?rows < 3" by simp
  have a: "acyclic_items (construct_all example_ids 7 ?rows)"
    by (simp add: acyclic_items_def construct_all_def enumerate_eq_zip tree_eval store_eval
        All_less_Suc)
  have r: "resolved (construct_all example_ids 7 ?rows)"
    by (simp add: resolved_def construct_all_def enumerate_eq_zip tree_eval store_eval
        All_less_Suc)
  note c = zero_duration_counts_30 [of "''f''" 7 ?a ?raw ?rows 3 example_ids]
  from c za have 1: "estimated_duration_minutes (new_TrainingItem ''f'' 7 ?a) = 30" by blast
  from c zraw have "getTotalEstimatedTime (construct 7 ?raw) = real (length (raw_data ?raw)) * 30"
    by blast
  then have 2: "getTotalEstimatedTime (construct 7 ?raw) = 60" by simp
  from c l a r obtain L where L: "distinct L" "set L = {0..<length ?rows}"
    "(\<forall>a\<in>set L. p_estimated_duration_minutes (?rows ! a) = None
                    \<or> p_estimated_duration_minutes (?rows ! a) = Some 0) \<longrightarrow>
     totalEstimatedHours (getUserStats 3 example_ids 7 (Some ?rows)) = real (length L) * (30 / 60)"
    by blast
  from L(1,2) have "length L = 2" using distinct_card [of L] by simp
  with L(2,3) zrows have 3: "totalEstimatedHours (getUserStats 3 example_ids 7 (Some ?rows)) = 1"
    by simp
  from za zb 1 2 l a r 3 show ?thesis by blast
qed

text \<open>
  The claim as written, 30 minutes in the total of \<^verbatim>\<open>getUserStats\<close> for each
  such item, fails on a row of duration 0 whose parent reference does not resolve: the
  item is constructed with 30 minutes, it is not in the flattened forest, and the total
  is 0.
\<close>

theorem zero_duration_orphan_uncounted_counterexample:
  "p_estimated_duration_minutes
       ((example_row ''d'' (Some ''zz'') 0)\<lparr> p_estimated_duration_minutes := Some 0 \<rparr>) = Some 0
   \<and> estimated_duration_minutes (construct_all example_ids 7
         [(example_row ''d'' (Some ''zz'') 0)\<lparr> p_estimated_duration_minutes := Some 0 \<rparr>] ! 0)
       = 30
   \<and> flattenTree 2 (links (getTrainingItems 2 example_ids 7
         (Some [(example_row ''d'' (Some ''zz'') 0)\<lparr> p_estimated_duration_minutes := Some 0 \<rparr>])))
       = Some []
   \<and> totalItems (getUserStats 2 example_ids 7
         (Some [(example_row ''d'' (Some ''zz'') 0)\<lparr> p_estimated_duration_minutes := Some 0 \<rparr>]))
       = 0
   \<and> totalEstimatedHours (getUserStats 2 example_ids 7
         (Some [(example_row ''d'' (Some ''zz'') 0)\<lparr> p_estimated_duration_minutes := Some 0 \<rparr>]))
       = 0"
  by (simp add: getUserStats_def getTrainingItems_def flatItems_of_def construct_all_def
      stats_of_def isCompleted_def [abs_def] tree_eval store_eval enumerate_eq_zip)

end
